theory Spec2Isabelle
  imports Main "HOL-Library.Signed_Division"
begin

unbundle bit_operations_syntax

section \<open>Machine integers and undefined behaviour\<close>

text \<open>
  The program computes with \<open>int\<close> (32 bits) and, inside \<open>mul_mod\<close>, with \<open>long\<close>
  (64 bits, the LP64 data model). Signed overflow, division by zero and a conversion of
  a \<open>double\<close> that has no \<open>int\<close> value are undefined behaviour in C++: the model computes
  on mathematical integers and makes each of them an error value, so that a result
  \<open>Inr r\<close> means that the C++ evaluation is defined and yields \<open>r\<close>.
  \<open>/\<close> and \<open>%\<close> truncate towards zero (\<open>sdiv\<close>, \<open>smod\<close>).
\<close>

datatype error = DivByZero | Overflow | BadCast

abbreviation INT_MAX :: int where "INT_MAX \<equiv> 2147483647"

abbreviation INT_MIN :: int where "INT_MIN \<equiv> - 2147483648"

abbreviation LONG_MAX :: int where "LONG_MAX \<equiv> 9223372036854775807"

abbreviation LONG_MIN :: int where "LONG_MIN \<equiv> - 9223372036854775808"

definition in_int :: "int \<Rightarrow> bool" where
  "in_int x = (INT_MIN \<le> x \<and> x \<le> INT_MAX)"

definition in_long :: "int \<Rightarrow> bool" where
  "in_long x = (LONG_MIN \<le> x \<and> x \<le> LONG_MAX)"

fun e_bind :: "error + 'a \<Rightarrow> ('a \<Rightarrow> error + 'b) \<Rightarrow> error + 'b" where
  "e_bind (Inl e) f = Inl e"
| "e_bind (Inr x) f = f x"

lemma e_bind_cong [fundef_cong]:
  "m = m' \<Longrightarrow> (\<And>x. m' = Inr x \<Longrightarrow> f x = f' x) \<Longrightarrow> e_bind m f = e_bind m' f'"
  by (cases m') simp_all

definition int_add :: "int \<Rightarrow> int \<Rightarrow> error + int" where
  "int_add a b = (if in_int (a + b) then Inr (a + b) else Inl Overflow)"

definition int_sub :: "int \<Rightarrow> int \<Rightarrow> error + int" where
  "int_sub a b = (if in_int (a - b) then Inr (a - b) else Inl Overflow)"

definition int_mul :: "int \<Rightarrow> int \<Rightarrow> error + int" where
  "int_mul a b = (if in_int (a * b) then Inr (a * b) else Inl Overflow)"

definition int_div :: "int \<Rightarrow> int \<Rightarrow> error + int" where
  "int_div a b =
     (if b = 0 then Inl DivByZero
      else if a = INT_MIN \<and> b = - 1 then Inl Overflow
      else Inr (a sdiv b))"

definition int_rem :: "int \<Rightarrow> int \<Rightarrow> error + int" where
  "int_rem a b =
     (if b = 0 then Inl DivByZero
      else if a = INT_MIN \<and> b = - 1 then Inl Overflow
      else Inr (a smod b))"

section \<open>The modular arithmetic kernel\<close>

text \<open>
  \<open>mul_mod(long a, long b, int m)\<close> returns \<open>(int)((a * b) % m)\<close>: the product is formed
  in \<open>long\<close>, the remainder has a smaller absolute value than \<open>m\<close> and fits \<open>int\<close>.
\<close>

definition mul_mod :: "int \<Rightarrow> int \<Rightarrow> int \<Rightarrow> error + int" where
  "mul_mod a b m =
     (if \<not> in_long (a * b) then Inl Overflow
      else if m = 0 then Inl DivByZero
      else if a * b = LONG_MIN \<and> m = - 1 then Inl Overflow
      else Inr ((a * b) smod m))"

text \<open>
  \<open>inv_mod\<close>: the body of the \<open>do ... while (u != 0)\<close> loop on the state \<open>(u, v, a, c)\<close>,
  the loop, and the final reduction of \<open>a\<close> into \<open>[0, y)\<close>.
\<close>

definition inv_mod_body :: "int \<times> int \<times> int \<times> int \<Rightarrow> error + int \<times> int \<times> int \<times> int" where
  "inv_mod_body s =
     (case s of (u, v, a, c) \<Rightarrow>
        e_bind (int_div v u) (\<lambda>q.
        e_bind (int_mul q c) (\<lambda>qc.
        e_bind (int_sub a qc) (\<lambda>c'.
        e_bind (int_mul q u) (\<lambda>qu.
        e_bind (int_sub v qu) (\<lambda>u'.
        Inr (u', u, c, c')))))))"

lemma inv_mod_body_decreases:
  assumes "inv_mod_body s = Inr s'"
  shows "\<bar>fst s'\<bar> < \<bar>fst s\<bar>"
proof -
  obtain u v a c where s: "s = (u, v, a, c)" by (cases s)
  from assms have u: "u \<noteq> 0"
    by (auto simp: s inv_mod_body_def int_div_def split: if_splits)
  from assms have "fst s' = v - (v sdiv u) * u"
    by (auto simp: s inv_mod_body_def int_div_def int_mul_def int_sub_def split: if_splits)
  then have "fst s' = v smod u"
    by (simp add: minus_sdiv_mult_eq_smod)
  with smod_int_range[OF u, of v] show ?thesis
    by (auto simp: s abs_less_iff)
qed

function inv_mod_loop :: "int \<times> int \<times> int \<times> int \<Rightarrow> error + int \<times> int \<times> int \<times> int" where
  "inv_mod_loop s =
     (case inv_mod_body s of
        Inl e \<Rightarrow> Inl e
      | Inr s' \<Rightarrow> if fst s' \<noteq> 0 then inv_mod_loop s' else Inr s')"
  by pat_completeness auto
termination
  by (relation "measure (\<lambda>s. nat \<bar>fst s\<bar>)") (auto dest: inv_mod_body_decreases)

declare inv_mod_loop.simps [simp del]

definition inv_mod :: "int \<Rightarrow> int \<Rightarrow> error + int" where
  "inv_mod x y =
     e_bind (inv_mod_loop (x, y, 0, 1)) (\<lambda>(u, v, a, c).
     e_bind (int_rem a y) (\<lambda>a'.
     if a' < 0 then int_add y a' else Inr a'))"

text \<open>
  \<open>pow_mod\<close>: the loop \<open>while (true)\<close> leaves when \<open>b >> 1\<close> is zero. For a negative
  exponent the arithmetic shift never reaches zero, so the loop is a partial function:
  \<open>None\<close> is the run that does not return.
\<close>

partial_function (option) pow_mod_loop :: "int \<Rightarrow> int \<Rightarrow> int \<Rightarrow> int \<Rightarrow> (error + int) option" where
  "pow_mod_loop r aa b m =
     (case (if b AND 1 \<noteq> 0 then mul_mod r aa m else Inr r) of
        Inl e \<Rightarrow> Some (Inl e)
      | Inr r' \<Rightarrow>
          (let b' = drop_bit 1 b in
           if b' = 0 then Some (Inr r')
           else (case mul_mod aa aa m of
                   Inl e \<Rightarrow> Some (Inl e)
                 | Inr aa' \<Rightarrow> pow_mod_loop r' aa' b' m)))"

declare pow_mod_loop.simps [code]

definition pow_mod :: "int \<Rightarrow> int \<Rightarrow> int \<Rightarrow> (error + int) option" where
  "pow_mod a b m = pow_mod_loop 1 a b m"

section \<open>The prime iteration\<close>

text \<open>
  \<open>not_prime\<close> computes \<open>(int)std::sqrt(n)\<close>. Every \<open>int\<close> is a \<open>double\<close>, and the IEEE
  square root is correctly rounded, so the truncated result is the integer square root;
  \<open>isqrt\<close> computes it. The square root of a negative number is a NaN, whose conversion
  to \<open>int\<close> is undefined.
\<close>

function isqrt :: "int \<Rightarrow> int" where
  "isqrt n =
     (if n < 4 then (if n \<le> 0 then 0 else 1)
      else let r = 2 * isqrt (n div 4) in if (r + 1) * (r + 1) \<le> n then r + 1 else r)"
  by pat_completeness auto
termination
  by (relation "measure (\<lambda>n. nat n)") auto

declare isqrt.simps [simp del]

definition int_sqrt :: "int \<Rightarrow> error + int" where
  "int_sqrt n = (if n < 0 then Inl BadCast else Inr (isqrt n))"

function not_prime_loop :: "int \<Rightarrow> int \<Rightarrow> int \<Rightarrow> error + bool" where
  "not_prime_loop n r i =
     (if i \<le> r then
        (case int_rem n i of
           Inl e \<Rightarrow> Inl e
         | Inr m \<Rightarrow>
             if m = 0 then Inr True
             else (case int_add i 2 of
                     Inl e \<Rightarrow> Inl e
                   | Inr i' \<Rightarrow> not_prime_loop n r i'))
      else Inr False)"
  by pat_completeness auto
termination
  by (relation "measure (\<lambda>(n, r, i). nat (r + 1 - i))")
     (auto simp: int_add_def split: if_splits)

declare not_prime_loop.simps [simp del]

definition not_prime :: "int \<Rightarrow> error + bool" where
  "not_prime n =
     (if n AND 1 = 0 then Inr True
      else e_bind (int_sqrt n) (\<lambda>r. not_prime_loop n r 3))"

function next_prime :: "int \<Rightarrow> error + int" where
  "next_prime n =
     (case int_add n 1 of
        Inl e \<Rightarrow> Inl e
      | Inr n' \<Rightarrow>
          (case not_prime n' of
             Inl e \<Rightarrow> Inl e
           | Inr composite \<Rightarrow> if composite then next_prime n' else Inr n'))"
  by pat_completeness auto
termination
  by (relation "measure (\<lambda>n. nat (INT_MAX - n))")
     (auto simp: int_add_def in_int_def split: if_splits)

declare next_prime.simps [simp del]

lemma next_prime_greater: "next_prime n = Inr p \<Longrightarrow> n < p \<and> p \<le> INT_MAX"
proof (induction n rule: next_prime.induct)
  case (1 n)
  from "1.prems" show ?case
    apply (subst (asm) next_prime.simps)
    apply (auto simp: int_add_def in_int_def split: if_splits sum.splits dest!: "1.IH"[rotated -1])
    done
qed

section \<open>The digit extractor\<close>

text \<open>
  \<open>at(n)\<close> mixes integer and floating-point arithmetic. The loops over \<open>k\<close> and the
  pass for one prime come first, on checked integers; then the two logarithm quotients
  and the operations on \<open>double\<close>; then the loop over the primes and \<open>at\<close> itself.
\<close>

text \<open>
\<open>for (int i = 0; i < vmax; ++i) av *= a;\<close>
\<close>

function av_loop :: "int \<Rightarrow> int \<Rightarrow> int \<Rightarrow> int \<Rightarrow> error + int" where
  "av_loop a vmax i av =
     (if i < vmax then
        e_bind (int_mul av a) (\<lambda>av'.
        e_bind (int_add i 1) (\<lambda>i'.
        av_loop a vmax i' av'))
      else Inr av)"
  by pat_completeness auto
termination
  by (relation "measure (\<lambda>(a, vmax, i, av). nat (vmax - i))")
     (auto simp: int_add_def split: if_splits)

declare av_loop.simps [simp del]

text \<open>
\<open>do { t = t / a; --v; } while ((t % a) == 0);\<close>
\<close>

function strip_num :: "int \<Rightarrow> int \<Rightarrow> int \<Rightarrow> error + int \<times> int" where
  "strip_num a t v =
     e_bind (int_div t a) (\<lambda>t'.
     e_bind (int_sub v 1) (\<lambda>v'.
     e_bind (int_rem t' a) (\<lambda>m.
     if m = 0 then strip_num a t' v' else Inr (t', v'))))"
  by pat_completeness auto
termination
  by (relation "measure (\<lambda>(a, t, v). nat (v - INT_MIN))")
     (auto simp: int_sub_def in_int_def split: if_splits)

declare strip_num.simps [simp del]

text \<open>
\<open>do { t = t / a; ++v; } while ((t % a) == 0);\<close>
\<close>

function strip_den :: "int \<Rightarrow> int \<Rightarrow> int \<Rightarrow> error + int \<times> int" where
  "strip_den a t v =
     e_bind (int_div t a) (\<lambda>t'.
     e_bind (int_add v 1) (\<lambda>v'.
     e_bind (int_rem t' a) (\<lambda>m.
     if m = 0 then strip_den a t' v' else Inr (t', v'))))"
  by pat_completeness auto
termination
  by (relation "measure (\<lambda>(a, t, v). nat (INT_MAX - v))")
     (auto simp: int_add_def in_int_def split: if_splits)

declare strip_den.simps [simp del]

text \<open>
\<open>for (int i = v; i < vmax; ++i) t = mul_mod(t, a, av);\<close>
\<close>

function scale_loop :: "int \<Rightarrow> int \<Rightarrow> int \<Rightarrow> int \<Rightarrow> int \<Rightarrow> error + int" where
  "scale_loop a av vmax i t =
     (if i < vmax then
        e_bind (mul_mod t a av) (\<lambda>t'.
        e_bind (int_add i 1) (\<lambda>i'.
        scale_loop a av vmax i' t'))
      else Inr t)"
  by pat_completeness auto
termination
  by (relation "measure (\<lambda>(a, av, vmax, i, t). nat (vmax - i))")
     (auto simp: int_add_def split: if_splits)

declare scale_loop.simps [simp del]

text \<open>
  The body of \<open>for (int k = 1; k <= N; ++k)\<close>. The state is
  \<open>(num, den, v, kq, kq2, s)\<close>; \<open>t\<close> is assigned before each use.
\<close>

type_synonym kstate = "int \<times> int \<times> int \<times> int \<times> int \<times> int"

definition k_body :: "int \<Rightarrow> int \<Rightarrow> int \<Rightarrow> int \<Rightarrow> kstate \<Rightarrow> error + kstate" where
  "k_body a av vmax k st =
     (case st of (num, den, v, kq, kq2, s) \<Rightarrow>
        e_bind (if kq \<ge> a
                then e_bind (strip_num a k v) (\<lambda>(t, v). Inr (t, v, 0))
                else Inr (k, v, kq)) (\<lambda>(t, v, kq).
        e_bind (int_add kq 1) (\<lambda>kq.
        e_bind (mul_mod num t av) (\<lambda>num.
        e_bind (int_mul 2 k) (\<lambda>k2.
        e_bind (int_sub k2 1) (\<lambda>t.
        e_bind (if kq2 \<ge> a
                then e_bind (if kq2 = a then strip_den a t v else Inr (t, v)) (\<lambda>(t, v).
                     e_bind (int_sub kq2 a) (\<lambda>kq2. Inr (t, v, kq2)))
                else Inr (t, v, kq2)) (\<lambda>(t, v, kq2).
        e_bind (mul_mod den t av) (\<lambda>den.
        e_bind (int_add kq2 2) (\<lambda>kq2.
        e_bind (if v > 0
                then e_bind (inv_mod den av) (\<lambda>t.
                     e_bind (mul_mod t num av) (\<lambda>t.
                     e_bind (mul_mod t k av) (\<lambda>t.
                     e_bind (scale_loop a av vmax v t) (\<lambda>t.
                     e_bind (int_add s t) (\<lambda>s.
                     if s \<ge> av then int_sub s av else Inr s)))))
                else Inr s) (\<lambda>s.
        Inr (num, den, v, kq, kq2, s)))))))))))"

function k_loop :: "int \<Rightarrow> int \<Rightarrow> int \<Rightarrow> int \<Rightarrow> int \<Rightarrow> kstate \<Rightarrow> error + kstate" where
  "k_loop a av vmax N k st =
     (if k \<le> N then
        e_bind (k_body a av vmax k st) (\<lambda>st'.
        e_bind (int_add k 1) (\<lambda>k'.
        k_loop a av vmax N k' st'))
      else Inr st)"
  by pat_completeness auto
termination
  by (relation "measure (\<lambda>(a, av, vmax, N, k, st). nat (N + 1 - k))")
     (auto simp: int_add_def split: if_splits)

declare k_loop.simps [simp del]

text \<open>
  One pass of the outer loop, for the prime \<open>a\<close>, from \<open>auto av = 1\<close> to
  \<open>mul_mod(s, t, av)\<close>: it yields the two \<open>int\<close> operands \<open>mul_mod(s, t, av)\<close> and \<open>av\<close> of
  the division in \<open>double\<close>. \<open>vmax\<close> is a local constant of the pass.
\<close>

definition at_term :: "int \<Rightarrow> int \<Rightarrow> int \<Rightarrow> int \<Rightarrow> (error + int \<times> int) option" where
  "at_term n N a vmax =
     (case e_bind (av_loop a vmax 0 1) (\<lambda>av.
           e_bind (k_loop a av vmax N 1 (1, 1, 0, 1, 1, 0)) (\<lambda>(num, den, v, kq, kq2, s).
           e_bind (int_sub n 1) (\<lambda>b. Inr (av, s, b)))) of
        Inl e \<Rightarrow> Some (Inl e)
      | Inr (av, s, b) \<Rightarrow>
          (case pow_mod 10 b av of
             None \<Rightarrow> None
           | Some (Inl e) \<Rightarrow> Some (Inl e)
           | Some (Inr t) \<Rightarrow>
               (case mul_mod s t av of
                  Inl e \<Rightarrow> Some (Inl e)
                | Inr x \<Rightarrow> Some (Inr (x, av)))))"

subsection \<open>The logarithm quotients\<close>

text \<open>
  \<open>std::log\<close> is taken to be the exact logarithm. Then \<open>(int)(log(m) / log(a))\<close> is the
  largest \<open>j\<close> with \<open>a ^ j \<le> m\<close>, which \<open>floor_log\<close> computes on integers (lemmas
  \<open>floor_log_power_le\<close> and \<open>floor_log_power_gt\<close>).
\<close>

function floor_log :: "int \<Rightarrow> int \<Rightarrow> int" where
  "floor_log m a = (if 1 < a \<and> a \<le> m then 1 + floor_log (m div a) a else 0)"
  by pat_completeness auto
termination
  by (relation "measure (\<lambda>(m, a). nat m)") (auto simp: int_div_less_self)

declare floor_log.simps [simp del]

text \<open>
  \<open>static_cast<const int>((n + 20) * std::log(10) / std::log(2))\<close>: the logarithm of
  \<open>10 ^ (n + 20)\<close> to the base 2, truncated towards zero. \<open>n + 20\<close> is an \<open>int\<close> addition;
  a quotient outside \<open>int\<close> has no conversion.
\<close>

definition at_N :: "int \<Rightarrow> error + int" where
  "at_N n =
     e_bind (int_add n 20) (\<lambda>m.
     let N = sgn m * floor_log (10 ^ nat \<bar>m\<bar>) 2
     in if in_int N then Inr N else Inl BadCast)"

text \<open>
  \<open>static_cast<int>(std::log(2 * N) / std::log(a))\<close>, which is evaluated in a pass of the
  loop, where \<open>3 \<le> a \<le> 2 * N\<close>. There \<open>2 * N\<close> is even and every power of the odd \<open>a\<close> is
  odd, so the exact quotient is not an integer.
\<close>

definition at_vmax :: "int \<Rightarrow> int \<Rightarrow> int" where
  "at_vmax N2 a = floor_log N2 a"

subsection \<open>Arithmetic in \<open>double\<close>\<close>

text \<open>
  A finite \<open>double\<close> (IEEE 754 binary64) is a dyadic rational: the pair \<open>(m, k)\<close> stands
  for \<open>m / 2 ^ k\<close>. \<open>d_round p q\<close> is the \<open>double\<close> nearest to the rational \<open>p / q\<close>, for
  \<open>q > 0\<close>, ties to even: with \<open>2 ^ e \<le> |p / q| < 2 ^ (e + 1)\<close> the quotient is rounded to
  a multiple of \<open>2 ^ (e - 52)\<close>, and to a multiple of \<open>2 ^ (- 1074)\<close> in the subnormal range.
  \<open>bits_below p q\<close> is \<open>- e\<close> when \<open>p < q\<close>. Every value that \<open>at\<close> computes in \<open>double\<close> is
  below \<open>2 ^ 31\<close> in magnitude, so infinities and NaNs do not arise.
\<close>

type_synonym double = "int \<times> nat"

function bits_below :: "int \<Rightarrow> int \<Rightarrow> int" where
  "bits_below p q = (if 0 < p \<and> p < q then 1 + bits_below (2 * p) q else 0)"
  by pat_completeness auto
termination
  by (relation "measure (\<lambda>(p, q). nat (q - p))") auto

declare bits_below.simps [simp del]

definition d_round :: "int \<Rightarrow> int \<Rightarrow> double" where
  "d_round p q =
     (if p = 0 then (0, 0)
      else
        let n = \<bar>p\<bar>;
            e = (if q \<le> n then floor_log (n div q) 2 else - bits_below n q);
            u = max (e - 52) (- 1074);
            num = (if u < 0 then n * 2 ^ nat (- u) else n);
            den = (if u < 0 then q else q * 2 ^ nat u);
            f = num div den;
            r = num mod den;
            m = (if 2 * r < den \<or> (2 * r = den \<and> even f) then f else f + 1)
        in if u < 0 then (sgn p * m, nat (- u)) else (sgn p * m * 2 ^ nat u, 0))"

text \<open>
  The division of an \<open>int\<close> by \<open>(double)av\<close> (both operands convert exactly), the addition
  and the multiplication round the exact result. \<open>std::fmod(x, 1.0)\<close> is exact and keeps
  the sign of \<open>x\<close>. \<open>static_cast<int>\<close> truncates towards zero and is undefined when the
  truncated value is not an \<open>int\<close>.
\<close>

definition d_div :: "int \<Rightarrow> int \<Rightarrow> double" where
  "d_div x y = (if y < 0 then d_round (- x) (- y) else d_round x y)"

definition d_add :: "double \<Rightarrow> double \<Rightarrow> double" where
  "d_add x y =
     (case x of (m1, k1) \<Rightarrow> case y of (m2, k2) \<Rightarrow>
        d_round (m1 * 2 ^ k2 + m2 * 2 ^ k1) (2 ^ (k1 + k2)))"

definition d_mul :: "double \<Rightarrow> double \<Rightarrow> double" where
  "d_mul x y =
     (case x of (m1, k1) \<Rightarrow> case y of (m2, k2) \<Rightarrow> d_round (m1 * m2) (2 ^ (k1 + k2)))"

definition d_fmod1 :: "double \<Rightarrow> double" where
  "d_fmod1 x = (case x of (m, k) \<Rightarrow> (m smod 2 ^ k, k))"

definition d_to_int :: "double \<Rightarrow> error + int" where
  "d_to_int x =
     (case x of (m, k) \<Rightarrow>
        let i = m sdiv 2 ^ k in if in_int i then Inr i else Inl BadCast)"

subsection \<open>The loop over the primes\<close>

text \<open>
  \<open>for (int a = 3; a <= (2 * N); a = next_prime(a))\<close>, each pass ending with
  \<open>sum = std::fmod((sum + mul_mod(s, t, av) / (double)av), 1.0)\<close>. The accumulator \<open>sum\<close>
  is \<open>acc\<close> here.
\<close>

function at_loop :: "int \<Rightarrow> int \<Rightarrow> int \<Rightarrow> double \<Rightarrow> (error + double) option" where
  "at_loop n N a acc =
     (case int_mul 2 N of
        Inl e \<Rightarrow> Some (Inl e)
      | Inr N2 \<Rightarrow>
          if a \<le> N2 then
            (case at_term n N a (at_vmax N2 a) of
               None \<Rightarrow> None
             | Some (Inl e) \<Rightarrow> Some (Inl e)
             | Some (Inr (x, av)) \<Rightarrow>
                 (case next_prime a of
                    Inl e \<Rightarrow> Some (Inl e)
                  | Inr a' \<Rightarrow> at_loop n N a' (d_fmod1 (d_add acc (d_div x av)))))
          else Some (Inr acc))"
  by pat_completeness auto
termination
  by (relation "measure (\<lambda>(n, N, a, acc). nat (2 * N + 1 - a))")
     (auto simp: int_mul_def split: if_splits dest!: next_prime_greater)

declare at_loop.simps [simp del]

text \<open>
  \<open>int at(int n)\<close>, which returns \<open>static_cast<int>(sum * 1e9)\<close>.
\<close>

definition nine_digits_of_Pi_at :: "int \<Rightarrow> (error + int) option" where
  "nine_digits_of_Pi_at n =
     (case at_N n of
        Inl e \<Rightarrow> Some (Inl e)
      | Inr N \<Rightarrow>
          (case at_loop n N 3 (0, 0) of
             None \<Rightarrow> None
           | Some (Inl e) \<Rightarrow> Some (Inl e)
           | Some (Inr acc) \<Rightarrow> Some (d_to_int (d_mul acc (1000000000, 0)))))"

section \<open>The block assembler: \<open>calc_pi\<close>\<close>

text \<open>
  \<open>calc_pi\<close> (both conditionally compiled variants) builds the string \<open>"3."\<close> followed by
  the leading characters of \<open>std::to_string(nine_digits_of_Pi::at(i + 1))\<close> for
  \<open>i = 0, 9, 18, ...\<close> while \<open>i < digits\<close>.

  The digit extractor \<open>at\<close> accumulates its result in a \<open>double\<close>; the driver only
  consumes the \<open>int\<close> it returns. The driver is therefore modelled over an arbitrary
  extractor \<open>at\<close>, a function from the block's 1-based start index to the returned
  \<open>int\<close>.

  \<open>std::size_t\<close> is modelled as \<open>nat\<close>: the loop counter is at most \<open>digits + 8\<close>.

  The progress callback is an arbitrary callable that may carry state (the program's
  lambda reads an atomic flag and writes a progress bar), so it is a function from its
  state and its argument to its answer and its new state. To state what the callback
  observes, the model records every value passed to the callback, every answer it gave,
  and every block index handed to \<open>at\<close>, in order.
\<close>

subsection \<open>\<open>std::to_string\<close> on \<open>int\<close>\<close>

definition digit_char :: "nat \<Rightarrow> char" where
  "digit_char n = char_of (48 + n)"

function digits_of :: "nat \<Rightarrow> string" where
  "digits_of n = (if n < 10 then [digit_char n] else digits_of (n div 10) @ [digit_char (n mod 10)])"
  by pat_completeness auto
termination
  by (relation "measure (\<lambda>n. n)") auto

definition to_string :: "int \<Rightarrow> string" where
  "to_string v = (if v < 0 then CHR ''-'' # digits_of (nat (- v)) else digits_of (nat v))"

definition is_digit :: "char \<Rightarrow> bool" where
  "is_digit c = (48 \<le> (of_char c :: nat) \<and> (of_char c :: nat) \<le> 57)"

subsection \<open>The two variants of the driver\<close>

record 's run =
  result :: string
  calls :: "nat list"
  blocks :: "nat list"
  cb_state :: 's

record 's async_run = "'s run" +
  answers :: "bool list"

text \<open>The variant compiled when \<open>ASYNC\<close> is defined: the callback returns \<open>bool\<close>.\<close>

function calc_pi_loop ::
  "(nat \<Rightarrow> int) \<Rightarrow> ('s \<Rightarrow> nat \<Rightarrow> bool \<times> 's) \<Rightarrow> nat \<Rightarrow> nat \<Rightarrow> 's async_run \<Rightarrow> 's async_run"
where
  "calc_pi_loop at progress digits i r =
     (if i < digits then
        let nine_digits = at (i + 1);
            count = min (digits - i) 9;
            pi = result r @ take count (to_string nine_digits);
            (continue, st) = progress (cb_state r) (i + count);
            r' = \<lparr>result = pi, calls = calls r @ [i + count], blocks = blocks r @ [i + 1],
                  cb_state = st, answers = answers r @ [continue]\<rparr>
        in if \<not> continue then r'\<lparr>result := []\<rparr>
           else calc_pi_loop at progress digits (i + 9) r'
      else r)"
  by pat_completeness auto
termination
  by (relation "measure (\<lambda>(at, progress, digits, i, r). digits - i)") auto

definition calc_pi ::
  "nat \<Rightarrow> (nat \<Rightarrow> int) \<Rightarrow> ('s \<Rightarrow> nat \<Rightarrow> bool \<times> 's) \<Rightarrow> 's \<Rightarrow> 's async_run"
where
  "calc_pi digits at progress st =
     calc_pi_loop at progress digits 0
       \<lparr>result = ''3.'', calls = [], blocks = [], cb_state = st, answers = []\<rparr>"

text \<open>The variant compiled otherwise: the callback returns nothing.\<close>

function calc_pi_sync_loop ::
  "(nat \<Rightarrow> int) \<Rightarrow> ('s \<Rightarrow> nat \<Rightarrow> 's) \<Rightarrow> nat \<Rightarrow> nat \<Rightarrow> 's run \<Rightarrow> 's run"
where
  "calc_pi_sync_loop at progress digits i r =
     (if i < digits then
        let nine_digits = at (i + 1);
            count = min (digits - i) 9;
            pi = result r @ take count (to_string nine_digits);
            st = progress (cb_state r) (i + count)
        in calc_pi_sync_loop at progress digits (i + 9)
             \<lparr>result = pi, calls = calls r @ [i + count], blocks = blocks r @ [i + 1],
              cb_state = st\<rparr>
      else r)"
  by pat_completeness auto
termination
  by (relation "measure (\<lambda>(at, progress, digits, i, r). digits - i)") auto

definition calc_pi_sync ::
  "nat \<Rightarrow> (nat \<Rightarrow> int) \<Rightarrow> ('s \<Rightarrow> nat \<Rightarrow> 's) \<Rightarrow> 's \<Rightarrow> 's run"
where
  "calc_pi_sync digits at progress st =
     calc_pi_sync_loop at progress digits 0
       \<lparr>result = ''3.'', calls = [], blocks = [], cb_state = st\<rparr>"

text \<open>
  The answers that the callback gives when it is invoked on a list of values in turn,
  each invocation starting in the state the previous one left.
\<close>

fun replay :: "('s \<Rightarrow> nat \<Rightarrow> bool \<times> 's) \<Rightarrow> 's \<Rightarrow> nat list \<Rightarrow> bool list" where
  "replay progress st [] = []"
| "replay progress st (n # ns) = fst (progress st n) # replay progress (snd (progress st n)) ns"

section \<open>Notions used in the statements\<close>

text \<open>
  Primality on \<open>int\<close>, by bounded search, and the runs that are free of division by zero
  and of invalid conversions: they return a value, or stop at a signed overflow.
\<close>

definition is_prime :: "int \<Rightarrow> bool" where
  "is_prime p = (1 < p \<and> (\<forall>d\<in>{2..<p}. \<not> d dvd p))"

definition ok :: "('a \<Rightarrow> bool) \<Rightarrow> error + 'a \<Rightarrow> bool" where
  "ok P r = (case r of Inl e \<Rightarrow> e = Overflow | Inr x \<Rightarrow> P x)"


text \<open>
  The loop invariants of \<open>inv_mod\<close> and of the pass over \<open>k\<close>.
\<close>

definition inv_mod_inv :: "int \<Rightarrow> int \<Rightarrow> int \<times> int \<times> int \<times> int \<Rightarrow> bool" where
  "inv_mod_inv x y s =
     (case s of (u, v, a, c) \<Rightarrow>
        0 \<le> u \<and> u \<le> y \<and> 0 < v \<and> v \<le> y \<and> coprime u v \<and>
        (a * x) mod y = v mod y \<and> (c * x) mod y = u mod y \<and>
        \<bar>a\<bar> \<le> y \<and> \<bar>c\<bar> \<le> y \<and>
        ((a \<le> 0 \<and> 0 \<le> c \<and> c * v - a * u = y) \<or> (0 \<le> a \<and> c \<le> 0 \<and> a * u - c * v = y)))"



section \<open>Properties of the kernel\<close>

subsection \<open>Checked arithmetic\<close>

lemma int_add_eq: "in_int (a + b) \<Longrightarrow> int_add a b = Inr (a + b)"
  by (simp add: int_add_def)

lemma int_sub_eq: "in_int (a - b) \<Longrightarrow> int_sub a b = Inr (a - b)"
  by (simp add: int_sub_def)

lemma int_mul_eq: "in_int (a * b) \<Longrightarrow> int_mul a b = Inr (a * b)"
  by (simp add: int_mul_def)

lemma int_div_pos: "0 \<le> a \<Longrightarrow> 0 < b \<Longrightarrow> int_div a b = Inr (a div b)"
  by (simp add: int_div_def signed_divide_int_def sgn_if)

lemma int_rem_pos: "0 \<le> a \<Longrightarrow> 0 < b \<Longrightarrow> int_rem a b = Inr (a mod b)"
  by (simp add: int_rem_def smod_mod_positive)

lemma int_product_in_long:
  assumes "0 \<le> a" "a \<le> INT_MAX" "0 \<le> b" "b \<le> INT_MAX"
  shows "in_long (a * b)"
proof -
  from assms have "a * b \<le> INT_MAX * INT_MAX" by (intro mult_mono) simp_all
  moreover from assms have "0 \<le> a * b" by simp
  ultimately show ?thesis by (simp add: in_long_def)
qed

lemma mul_mod_pos:
  assumes "0 \<le> a" "a \<le> INT_MAX" "0 \<le> b" "b \<le> INT_MAX" "0 < m"
  shows "mul_mod a b m = Inr ((a * b) mod m)"
proof -
  have "in_long (a * b)" using assms(1-4) by (rule int_product_in_long)
  moreover have "0 \<le> a * b" using assms by simp
  ultimately show ?thesis using assms(5) by (simp add: mul_mod_def smod_mod_positive)
qed

subsection \<open>\<open>pow_mod\<close>\<close>

lemma pow_mod_loop_correct:
  assumes "0 \<le> b" "0 < m" "m \<le> INT_MAX"
  shows "0 \<le> r \<Longrightarrow> r \<le> INT_MAX \<Longrightarrow> 0 \<le> aa \<Longrightarrow> aa \<le> INT_MAX \<Longrightarrow>
         pow_mod_loop r aa b m = Some (Inr (if b = 0 then r else (r * aa ^ nat b) mod m))"
  using assms(1)
proof (induction "nat b" arbitrary: b r aa rule: less_induct)
  case less
  note m = assms(2,3)
  let ?r' = "if odd b then (r * aa) mod m else r"
  have step1: "(if b AND 1 \<noteq> 0 then mul_mod r aa m else Inr r) = Inr ?r'"
    using less.prems m by (simp add: and_one_eq mul_mod_pos mod_2_eq_odd)
  have r': "0 \<le> ?r'" "?r' \<le> INT_MAX"
    using less.prems m by (auto intro: order_trans[OF less_imp_le[OF pos_mod_bound]])
  have db: "drop_bit 1 b = b div 2" "drop_bit (Suc 0) b = b div 2"
    by (simp_all add: drop_bit_eq_div)
  show ?case
  proof (cases "b div 2 = 0")
    case True
    with less.prems have "b = 0 \<or> b = 1" by auto
    then show ?thesis
      by (subst pow_mod_loop.simps) (auto simp: step1 db)
  next
    case False
    let ?aa' = "(aa * aa) mod m"
    have sq: "mul_mod aa aa m = Inr ?aa'"
      using less.prems m by (simp add: mul_mod_pos)
    have aa': "0 \<le> ?aa'" "?aa' \<le> INT_MAX"
      using m by (auto intro: order_trans[OF less_imp_le[OF pos_mod_bound]])
    from False less.prems have b2: "0 < b div 2" "nat (b div 2) < nat b" "0 \<le> b div 2" "b \<noteq> 0"
      by auto
    have IH: "pow_mod_loop ?r' ?aa' (b div 2) m = Some (Inr ((?r' * ?aa' ^ nat (b div 2)) mod m))"
      using less.hyps[OF b2(2) r' aa' b2(3)] False by simp
    have "(?r' * ?aa' ^ nat (b div 2)) mod m = (r * aa ^ nat b) mod m"
    proof -
      have e: "(?aa' ^ nat (b div 2)) mod m = (aa ^ (2 * nat (b div 2))) mod m"
        by (simp add: power_mod power_mult power2_eq_square)
      have "nat b = 2 * nat (b div 2) + (if odd b then 1 else 0)"
        using less.prems by (auto elim!: oddE evenE simp: nat_mult_distrib nat_add_distrib)
      then have "(r * aa ^ nat b) mod m = ((if odd b then r * aa else r) * aa ^ (2 * nat (b div 2))) mod m"
        by (simp add: power_add ac_simps)
      also have "\<dots> = (((if odd b then r * aa else r) mod m) * ((aa ^ (2 * nat (b div 2))) mod m)) mod m"
        by (simp add: mod_mult_eq)
      also have "\<dots> = ((?r' mod m) * ((?aa' ^ nat (b div 2)) mod m)) mod m"
        by (simp add: e)
      also have "\<dots> = (?r' * ?aa' ^ nat (b div 2)) mod m"
        by (simp only: mod_mult_eq)
      finally show ?thesis by simp
    qed
    with IH show ?thesis
      using False b2(4) by (subst pow_mod_loop.simps) (simp add: step1 db sq Let_def)
  qed
qed

lemma pow_mod_correct:
  assumes "0 \<le> b" "0 < m" "m \<le> INT_MAX" "0 \<le> a" "a \<le> INT_MAX"
  shows "pow_mod a b m = Some (Inr (if b = 0 then 1 else a ^ nat b mod m))"
  using pow_mod_loop_correct[OF assms(1-3), of 1 a] assms(4,5) by (simp add: pow_mod_def)

lemma pow_mod_reference:
  assumes "0 \<le> b" "0 < m" "m \<le> INT_MAX" "0 \<le> a" "a < m" "1 \<le> b \<or> 2 \<le> m"
  shows "pow_mod a b m = Some (Inr (a ^ nat b mod m)) \<and> 0 \<le> a ^ nat b mod m \<and> a ^ nat b mod m < m"
  using pow_mod_correct[of b m a] assms by auto

text \<open>
  Claim C6 (for \<open>b \<ge> 0\<close>, \<open>m > 0\<close> and \<open>0 \<le> a < m\<close> the result is \<open>a^b mod m\<close> and lies
  in \<open>[0, m)\<close>) fails at \<open>m = 1\<close>, \<open>b = 0\<close>: \<open>r\<close> starts as 1 and is returned without a
  reduction, while \<open>0^0 mod 1 = 0\<close> and 1 is not below the modulus. Everywhere else the
  claim holds (\<open>pow_mod_reference\<close>).
\<close>

theorem pow_mod_zero_exponent_modulus_one:
  "pow_mod 0 0 1 = Some (Inr 1) \<and> (0::int) ^ 0 mod 1 = 0 \<and> \<not> (1::int) < 1"
  by (simp add: pow_mod_def pow_mod_loop.simps)

subsection \<open>\<open>inv_mod\<close>\<close>

lemma inv_mod_body_inv:
  assumes inv: "inv_mod_inv x y (u, v, a, c)" and u: "u \<noteq> 0" and y: "y \<le> INT_MAX"
  shows "inv_mod_body (u, v, a, c) = Inr (v mod u, u, c, a - (v div u) * c) \<and>
         inv_mod_inv x y (v mod u, u, c, a - (v div u) * c)"
proof -
  define q where "q = v div u"
  define u' where "u' = v mod u"
  define c' where "c' = a - q * c"
  from inv u have up: "0 < u" "u \<le> y" and vp: "0 < v" "v \<le> y" and cop: "coprime u v"
    and ax: "(a * x) mod y = v mod y" and cx: "(c * x) mod y = u mod y"
    and ab: "\<bar>a\<bar> \<le> y" and cb: "\<bar>c\<bar> \<le> y"
    and comb: "(a \<le> 0 \<and> 0 \<le> c \<and> c * v - a * u = y) \<or> (0 \<le> a \<and> c \<le> 0 \<and> a * u - c * v = y)"
    by (simp_all add: inv_mod_inv_def)
  have q0: "0 \<le> q" using up vp by (simp add: q_def pos_imp_zdiv_nonneg_iff)
  have u'b: "0 \<le> u'" "u' < u" using up by (simp_all add: u'_def)
  have vdec: "v = q * u + u'" by (simp add: q_def u'_def)
  have qu: "0 \<le> q * u" "q * u \<le> v"
    using q0 up u'b vdec by simp_all
  have e1: "c' * u - c * u' = a * u - c * v"
    unfolding c'_def vdec by (simp add: algebra_simps)
  \<comment> \<open>the new coefficient and the linear combination it satisfies\<close>
  have comb': "(c \<le> 0 \<and> 0 \<le> c' \<and> c' * u - c * u' = y) \<or> (0 \<le> c \<and> c' \<le> 0 \<and> c * u' - c' * u = y)"
    using comb
  proof
    assume h: "a \<le> 0 \<and> 0 \<le> c \<and> c * v - a * u = y"
    then have "0 \<le> q * c" using q0 by simp
    with h have "c' \<le> 0" by (simp add: c'_def)
    moreover have "c * u' - c' * u = y" using e1 h by simp
    ultimately show ?thesis using h by simp
  next
    assume h: "0 \<le> a \<and> c \<le> 0 \<and> a * u - c * v = y"
    then have "q * c \<le> 0" using q0 by (simp add: mult_nonneg_nonpos)
    with h have "0 \<le> c'" by (simp add: c'_def)
    moreover have "c' * u - c * u' = y" using e1 h by simp
    ultimately show ?thesis using h by simp
  qed
  have c'u: "\<bar>c'\<bar> * u \<le> y"
    using comb'
  proof
    assume h: "c \<le> 0 \<and> 0 \<le> c' \<and> c' * u - c * u' = y"
    then have "c * u' \<le> 0" using u'b by (simp add: mult_nonpos_nonneg)
    with h show ?thesis by simp
  next
    assume h: "0 \<le> c \<and> c' \<le> 0 \<and> c * u' - c' * u = y"
    then have "0 \<le> c * u'" using u'b by simp
    moreover from h have "\<bar>c'\<bar> * u = - (c' * u)" by simp
    ultimately show ?thesis using h by linarith
  qed
  have c'b: "\<bar>c'\<bar> \<le> y"
  proof -
    have "\<bar>c'\<bar> * 1 \<le> \<bar>c'\<bar> * u" using up by (intro mult_left_mono) simp_all
    with c'u show ?thesis by simp
  qed
  have qcb: "\<bar>q * c\<bar> \<le> y"
  proof -
    from comb have "\<bar>q * c\<bar> \<le> \<bar>c'\<bar>"
    proof
      assume h: "a \<le> 0 \<and> 0 \<le> c \<and> c * v - a * u = y"
      then have "0 \<le> q * c" using q0 by simp
      with h show ?thesis by (simp add: c'_def)
    next
      assume h: "0 \<le> a \<and> c \<le> 0 \<and> a * u - c * v = y"
      then have "q * c \<le> 0" using q0 by (simp add: mult_nonneg_nonpos)
      with h show ?thesis by (simp add: c'_def)
    qed
    with c'b show ?thesis by simp
  qed
  have r1: "int_div v u = Inr q" using up vp by (simp add: int_div_pos q_def)
  have r2: "int_mul q c = Inr (q * c)"
    using qcb y by (intro int_mul_eq) (simp add: in_int_def abs_le_iff)
  have r3: "int_sub a (q * c) = Inr c'"
    unfolding c'_def using c'b y by (intro int_sub_eq) (simp add: in_int_def abs_le_iff c'_def)
  have r4: "int_mul q u = Inr (q * u)"
    using qu vp y by (intro int_mul_eq) (simp add: in_int_def)
  have r5: "int_sub v (q * u) = Inr u'"
  proof -
    have "v - q * u = u'" using vdec by simp
    moreover have "in_int u'" using u'b up y by (simp add: in_int_def)
    ultimately show ?thesis by (simp add: int_sub_def)
  qed
  have body: "inv_mod_body (u, v, a, c) = Inr (u', u, c, c')"
    by (simp add: inv_mod_body_def r1 r2 r3 r4 r5)
  have c'x: "(c' * x) mod y = u' mod y"
  proof -
    have "(c' * x) mod y = (a * x - q * (c * x)) mod y" by (simp add: c'_def algebra_simps)
    also have "\<dots> = ((a * x) mod y - (q * ((c * x) mod y)) mod y) mod y"
      by (simp only: mod_diff_eq mod_mult_right_eq)
    also have "\<dots> = (v mod y - (q * (u mod y)) mod y) mod y" by (simp only: ax cx)
    also have "\<dots> = (v - q * u) mod y"
      by (simp only: mod_diff_eq mod_mult_right_eq)
    also have "v - q * u = u'" using vdec by simp
    finally show ?thesis .
  qed
  have cop': "coprime u' u" using cop u by (simp add: u'_def coprime_commute)
  have "inv_mod_inv x y (u', u, c, c')"
    unfolding inv_mod_inv_def using u'b up cop' cx c'x cb c'b comb' by auto
  with body show ?thesis by (simp add: q_def u'_def c'_def)
qed

lemma inv_mod_loop_inv:
  assumes y: "y \<le> INT_MAX"
  shows "inv_mod_inv x y s \<Longrightarrow> fst s \<noteq> 0 \<Longrightarrow>
         \<exists>s'. inv_mod_loop s = Inr s' \<and> inv_mod_inv x y s' \<and> fst s' = 0"
proof (induction "nat \<bar>fst s\<bar>" arbitrary: s rule: less_induct)
  case less
  obtain u v a c where s: "s = (u, v, a, c)" by (cases s)
  let ?s' = "(v mod u, u, c, a - (v div u) * c)"
  from less.prems have u: "u \<noteq> 0" and inv: "inv_mod_inv x y (u, v, a, c)" by (simp_all add: s)
  from inv_mod_body_inv[OF inv u y]
  have body: "inv_mod_body s = Inr ?s'" and inv': "inv_mod_inv x y ?s'" by (simp_all add: s)
  show ?case
  proof (cases "v mod u = 0")
    case True
    with body inv' show ?thesis by (subst inv_mod_loop.simps) simp
  next
    case False
    from inv_mod_body_decreases[OF body] have "nat \<bar>fst ?s'\<bar> < nat \<bar>fst s\<bar>" by simp
    from less.hyps[OF this inv'] False
    obtain s'' where "inv_mod_loop ?s' = Inr s''" "inv_mod_inv x y s''" "fst s'' = 0" by auto
    with body False show ?thesis by (subst inv_mod_loop.simps) simp
  qed
qed

lemma inv_mod_correct:
  assumes "1 \<le> x" "x < y" "y \<le> INT_MAX" "coprime x y"
  shows "\<exists>r. inv_mod x y = Inr r \<and> 0 \<le> r \<and> r < y \<and> (r * x) mod y = 1"
proof -
  have "inv_mod_inv x y (x, y, 0, 1)"
    using assms by (simp add: inv_mod_inv_def)
  from inv_mod_loop_inv[OF assms(3) this] assms(1)
  obtain v a c where loop: "inv_mod_loop (x, y, 0, 1) = Inr (0, v, a, c)"
    and inv: "inv_mod_inv x y (0, v, a, c)"
    by (metis fst_conv not_one_le_zero prod_cases4)
  from inv have v: "v = 1" and ax: "(a * x) mod y = v mod y" and ab: "\<bar>a\<bar> \<le> y"
    by (auto simp: inv_mod_inv_def)
  from assms have y2: "1 < y" by simp
  have rem: "int_rem a y = Inr (a smod y)"
    using y2 by (simp add: int_rem_def)
  let ?r = "a mod y"
  have m0: "0 \<le> a mod y" "a mod y < y" using y2 by simp_all
  have sm: "a smod y = a mod y \<or> a smod y = a mod y - y"
    by (cases "sgn a \<noteq> sgn y \<and> \<not> y dvd a") (simp_all add: signed_modulo_int_eq_modulo_int)
  have res: "inv_mod x y = Inr ?r"
  proof (cases "a smod y < 0")
    case True
    with sm m0 have "a smod y = a mod y - y" by linarith
    moreover have "in_int (a mod y)"
      using m0 assms(3) by (simp add: in_int_def)
    ultimately show ?thesis
      using True by (simp add: inv_mod_def loop rem int_add_def)
  next
    case False
    with sm m0 have "a smod y = a mod y" by linarith
    then show ?thesis
      using False by (simp add: inv_mod_def loop rem)
  qed
  have "(?r * x) mod y = (a * x) mod y" by (simp add: mod_mult_left_eq)
  also have "\<dots> = 1" using ax v y2 by simp
  finally have "(?r * x) mod y = 1" .
  with res y2 show ?thesis by simp
qed

text \<open>
  Claim C5: for all \<open>int\<close> values \<open>x\<close>, \<open>y\<close> with \<open>1 \<le> x < y\<close> and \<open>gcd(x, y) = 1\<close>,
  \<open>inv_mod(x, y)\<close> returns (no intermediate value overflows) some \<open>r\<close> in \<open>[0, y)\<close> with
  \<open>(r * x) mod y = 1\<close>.
\<close>

theorem inv_mod_inverse:
  "1 \<le> x \<Longrightarrow> x < y \<Longrightarrow> y \<le> INT_MAX \<Longrightarrow> gcd x y = 1 \<Longrightarrow>
   \<exists>r. inv_mod x y = Inr r \<and> 0 \<le> r \<and> r < y \<and> (r * x) mod y = 1"
  by (rule inv_mod_correct) (simp_all add: coprime_iff_gcd_eq_1)

theorem inv_mod_inverse_witness:
  "(1::int) \<le> 3 \<and> (3::int) < 7 \<and> (7::int) \<le> INT_MAX \<and> gcd (3::int) 7 = 1 \<and>
   inv_mod 3 7 = Inr 5 \<and> (5 * 3) mod 7 = (1::int)"
proof -
  have g: "gcd (3::int) 7 = 1" by code_simp
  have v: "inv_mod 3 7 = Inr 5" by code_simp
  from inv_mod_inverse[of 3 7, OF _ _ _ g] v have "(5 * 3) mod 7 = (1::int)" by simp
  with g v show ?thesis by simp
qed

section \<open>Properties of the prime iteration\<close>

lemma is_prime_iff: "is_prime p \<longleftrightarrow> 1 < p \<and> (\<forall>d. 1 < d \<and> d < p \<longrightarrow> \<not> d dvd p)"
  by (auto simp: is_prime_def)

lemma is_prime_odd: "is_prime p \<Longrightarrow> 2 < p \<Longrightarrow> odd p"
  by (auto simp: is_prime_iff)

lemma isqrt_bounds: "0 \<le> n \<Longrightarrow> 0 \<le> isqrt n \<and> isqrt n * isqrt n \<le> n \<and> n < (isqrt n + 1) * (isqrt n + 1)"
proof (induction n rule: isqrt.induct)
  case (1 n)
  show ?case
  proof (cases "n < 4")
    case True
    with "1.prems" show ?thesis by (subst (1 2 3 4 5) isqrt.simps) auto
  next
    case False
    define m where "m = n div 4"
    define r0 where "r0 = isqrt m"
    define s where "s = r0 * r0"
    from False have m0: "0 \<le> m" by (simp add: m_def)
    have mn: "4 * m \<le> n" "n < 4 * m + 4" by (simp_all add: m_def)
    from "1.IH"[OF False] m0 have IH: "0 \<le> r0" "s \<le> m" "m < s + 2 * r0 + 1"
      by (simp_all add: m_def r0_def s_def algebra_simps)
    have e1: "(2 * r0) * (2 * r0) = 4 * s" by (simp add: s_def)
    have e2: "(2 * r0 + 1) * (2 * r0 + 1) = 4 * s + 4 * r0 + 1" by (simp add: s_def algebra_simps)
    have e3: "(2 * r0 + 1 + 1) * (2 * r0 + 1 + 1) = 4 * s + 8 * r0 + 4" by (simp add: s_def algebra_simps)
    have unfold: "isqrt n = (if (2 * r0 + 1) * (2 * r0 + 1) \<le> n then 2 * r0 + 1 else 2 * r0)"
      using False by (subst isqrt.simps) (simp add: Let_def m_def r0_def)
    show ?thesis
    proof (cases "(2 * r0 + 1) * (2 * r0 + 1) \<le> n")
      case True
      then have "isqrt n = 2 * r0 + 1" by (simp add: unfold)
      moreover have "n < (2 * r0 + 1 + 1) * (2 * r0 + 1 + 1)" unfolding e3 using IH mn by linarith
      ultimately show ?thesis using True IH by simp
    next
      case F: False
      then have "isqrt n = 2 * r0" by (simp add: unfold)
      moreover have "(2 * r0) * (2 * r0) \<le> n" unfolding e1 using IH mn by linarith
      ultimately show ?thesis using F IH by simp
    qed
  qed
qed

lemma isqrt_int_small:
  assumes "0 \<le> n" "n \<le> INT_MAX"
  shows "isqrt n \<le> 46340"
proof (rule ccontr)
  assume "\<not> isqrt n \<le> 46340"
  then have "46341 \<le> isqrt n" by simp
  then have "46341 * 46341 \<le> isqrt n * isqrt n" by (intro mult_mono) simp_all
  with isqrt_bounds[OF assms(1)] assms(2) show False by simp
qed

lemma not_prime_loop_correct:
  "3 \<le> i \<Longrightarrow> r \<le> 46340 \<Longrightarrow> 0 \<le> n \<Longrightarrow>
   not_prime_loop n r i = Inr (\<exists>d. i \<le> d \<and> d \<le> r \<and> even (d - i) \<and> d dvd n)"
proof (induction "nat (r + 1 - i)" arbitrary: i rule: less_induct)
  case less
  show ?case
  proof (cases "i \<le> r")
    case False
    then show ?thesis by (subst not_prime_loop.simps) auto
  next
    case True
    have rem: "int_rem n i = Inr (n mod i)" using less.prems by (simp add: int_rem_pos)
    have add: "int_add i 2 = Inr (i + 2)" using less.prems True by (simp add: int_add_def in_int_def)
    show ?thesis
    proof (cases "n mod i = 0")
      case T: True
      then have "i dvd n" by auto
      with True have "\<exists>d. i \<le> d \<and> d \<le> r \<and> even (d - i) \<and> d dvd n" by (intro exI[of _ i]) simp
      with T True show ?thesis by (subst not_prime_loop.simps) (simp add: rem)
    next
      case F: False
      then have nd: "\<not> i dvd n" by (simp add: dvd_eq_mod_eq_0)
      have "nat (r + 1 - (i + 2)) < nat (r + 1 - i)" using True by simp
      from less.hyps[OF this] less.prems
      have IH: "not_prime_loop n r (i + 2) = Inr (\<exists>d. i + 2 \<le> d \<and> d \<le> r \<and> even (d - (i + 2)) \<and> d dvd n)"
        by simp
      have "(\<exists>d. i + 2 \<le> d \<and> d \<le> r \<and> even (d - (i + 2)) \<and> d dvd n)
            \<longleftrightarrow> (\<exists>d. i \<le> d \<and> d \<le> r \<and> even (d - i) \<and> d dvd n)"
      proof (intro iffI; elim exE conjE)
        fix d assume "i + 2 \<le> d" "d \<le> r" "even (d - (i + 2))" "d dvd n"
        then show "\<exists>d. i \<le> d \<and> d \<le> r \<and> even (d - i) \<and> d dvd n"
          by (intro exI[of _ d]) auto
      next
        fix d assume d: "i \<le> d" "d \<le> r" "even (d - i)" "d dvd n"
        with nd have "d \<noteq> i" by auto
        moreover from d(3) have "d \<noteq> i + 1" by auto
        ultimately have "i + 2 \<le> d" using d(1) by linarith
        with d show "\<exists>d. i + 2 \<le> d \<and> d \<le> r \<and> even (d - (i + 2)) \<and> d dvd n"
          by (intro exI[of _ d]) auto
      qed
      with IH F True show ?thesis by (subst not_prime_loop.simps) (simp add: rem add)
    qed
  qed
qed

lemma not_prime_odd:
  assumes "3 \<le> n" "n \<le> INT_MAX" "odd n"
  shows "not_prime n = Inr (\<not> is_prime n)"
proof -
  define r where "r = isqrt n"
  from assms have n0: "0 \<le> n" by simp
  from isqrt_bounds[OF n0] have r: "0 \<le> r" "r * r \<le> n" "n < (r + 1) * (r + 1)"
    by (simp_all add: r_def)
  have rs: "r \<le> 46340" unfolding r_def using n0 assms(2) by (rule isqrt_int_small)
  have odd1: "n AND 1 \<noteq> 0" using assms(3) by (simp add: and_one_eq mod_2_eq_odd)
  have "not_prime n = not_prime_loop n r 3"
    using odd1 n0 by (simp add: not_prime_def int_sqrt_def r_def)
  also have "\<dots> = Inr (\<exists>d. 3 \<le> d \<and> d \<le> r \<and> even (d - 3) \<and> d dvd n)"
    using rs n0 by (intro not_prime_loop_correct) simp_all
  also have "(\<exists>d. 3 \<le> d \<and> d \<le> r \<and> even (d - 3) \<and> d dvd n) \<longleftrightarrow> \<not> is_prime n"
  proof
    assume "\<exists>d. 3 \<le> d \<and> d \<le> r \<and> even (d - 3) \<and> d dvd n"
    then obtain d where d: "3 \<le> d" "d \<le> r" "d dvd n" by auto
    then have "r * 1 < r * r" by (intro mult_strict_left_mono) simp_all
    then have "r < r * r" by simp
    with r(2) d have "1 < d \<and> d < n" by linarith
    with d(3) show "\<not> is_prime n" by (auto simp: is_prime_iff)
  next
    assume "\<not> is_prime n"
    with assms(1) obtain d where d: "1 < d" "d < n" "d dvd n" by (auto simp: is_prime_iff)
    then obtain e where e: "n = d * e" by (auto elim: dvdE)
    have e1: "1 < e"
    proof (rule ccontr)
      assume "\<not> 1 < e"
      then have "e \<le> 1" by simp
      then have "d * e \<le> d * 1" using d(1) by (intro mult_left_mono) simp_all
      with e d(2) show False by simp
    qed
    define m where "m = min d e"
    have m1: "1 < m" "m dvd n" using d e e1 by (auto simp: m_def min_def)
    have "m * m \<le> d * e" using d(1) e1 by (intro mult_mono) (simp_all add: m_def)
    then have mm: "m * m \<le> n" by (simp add: e)
    have mr: "m \<le> r"
    proof (rule ccontr)
      assume "\<not> m \<le> r"
      then have "r + 1 \<le> m" by simp
      then have "(r + 1) * (r + 1) \<le> m * m" using r(1) by (intro mult_mono) simp_all
      with mm r(3) show False by simp
    qed
    have "odd m" using m1(2) assms(3) by (auto elim: dvdE)
    then have "3 \<le> m \<and> even (m - 3)" using m1(1) by (cases "m = 2") auto
    with mr m1(2) show "\<exists>d. 3 \<le> d \<and> d \<le> r \<and> even (d - 3) \<and> d dvd n" by (intro exI[of _ m]) simp
  qed
  finally show ?thesis .
qed

lemma not_prime_even: "even n \<Longrightarrow> not_prime n = Inr True"
  by (simp add: not_prime_def and_one_eq)

lemma not_prime_ge_3:
  assumes "3 \<le> n" "n \<le> INT_MAX"
  shows "not_prime n = Inr (\<not> is_prime n)"
proof (cases "even n")
  case True
  with assms(1) have "\<not> is_prime n" using is_prime_odd[of n] by auto
  with True show ?thesis by (simp add: not_prime_even)
next
  case False
  with assms show ?thesis by (simp add: not_prime_odd)
qed

lemma next_prime_least:
  assumes "is_prime p" "p \<le> INT_MAX"
  shows "2 \<le> n \<Longrightarrow> n < p \<Longrightarrow> (\<forall>q. n < q \<and> q < p \<longrightarrow> \<not> is_prime q) \<Longrightarrow> next_prime n = Inr p"
proof (induction "nat (p - n)" arbitrary: n rule: less_induct)
  case less
  have add: "int_add n 1 = Inr (n + 1)" using less.prems assms(2) by (simp add: int_add_def in_int_def)
  have np: "not_prime (n + 1) = Inr (\<not> is_prime (n + 1))"
    using less.prems assms(2) by (intro not_prime_ge_3) simp_all
  show ?case
  proof (cases "n + 1 = p")
    case True
    with np assms(1) have "not_prime p = Inr False" by simp
    with True show ?thesis by (subst next_prime.simps) (simp add: add)
  next
    case False
    with less.prems have lt: "n + 1 < p" by simp
    with less.prems have c: "\<not> is_prime (n + 1)" by simp
    have "nat (p - (n + 1)) < nat (p - n)" using lt by simp
    from less.hyps[OF this _ lt] less.prems have "next_prime (n + 1) = Inr p" by simp
    with c show ?thesis by (subst next_prime.simps) (simp add: add np)
  qed
qed

subsection \<open>The largest \<open>int\<close> is prime\<close>

text \<open>
  \<open>2^31 - 1\<close> is prime, by Lucas' test with the base 7: the order of 7 modulo \<open>2^31 - 1\<close>
  is \<open>2^31 - 2 = 2 * 3^2 * 7 * 11 * 31 * 151 * 331\<close>. The powers are computed by \<open>pow_mod\<close>
  itself. So a prime above \<open>n\<close> exists in \<open>int\<close> for every \<open>n\<close> below \<open>INT_MAX\<close>.
\<close>

lemma prime_factor_exists: "1 < m \<Longrightarrow> \<exists>q. is_prime q \<and> q dvd m"
proof (induction "nat m" arbitrary: m rule: less_induct)
  case less
  show ?case
  proof (cases "is_prime m")
    case True
    then show ?thesis by auto
  next
    case False
    with less.prems obtain d where d: "1 < d" "d < m" "d dvd m" by (auto simp: is_prime_iff)
    then have "nat d < nat m" by simp
    from less.hyps[OF this d(1)] obtain q where "is_prime q" "q dvd d" by auto
    with d(3) show ?thesis by (auto intro: dvd_trans)
  qed
qed

lemma is_prime_coprime:
  assumes "is_prime q" "\<not> q dvd a"
  shows "coprime q a"
proof (rule coprimeI)
  fix c assume c: "c dvd q" "c dvd a"
  define c' where "c' = \<bar>c\<bar>"
  from c have c': "c' dvd q" "c' dvd a" "0 \<le> c'" by (simp_all add: c'_def)
  from assms(1) have q: "1 < q" by (simp add: is_prime_iff)
  with c'(1) have "c' \<noteq> 0" by auto
  with c'(3) have pos: "0 < c'" by simp
  from c'(1) q have le: "c' \<le> q" by (intro zdvd_imp_le) simp_all
  have "c' \<noteq> q" using c'(2) assms(2) by auto
  with le have "c' < q" by simp
  with assms(1) c'(1) pos have "c' = 1" by (auto simp: is_prime_iff) (metis int_one_le_iff_zero_less less_le)
  then show "is_unit c" by (simp add: c'_def)
qed

lemma is_prime_dvd_mult:
  assumes "is_prime q" "q dvd a * b"
  shows "q dvd a \<or> q dvd b"
proof (cases "q dvd a")
  case True
  then show ?thesis by simp
next
  case False
  with assms(1) have "coprime q a" by (rule is_prime_coprime)
  with assms(2) show ?thesis by (simp add: coprime_dvd_mult_right_iff)
qed

lemma is_prime_dvd_prime: "is_prime q \<Longrightarrow> is_prime p \<Longrightarrow> q dvd p \<Longrightarrow> q = p"
  by (metis is_prime_iff less_le zdvd_imp_le less_trans zero_less_one)

lemma mod_one_coprime:
  fixes x :: int
  assumes "(x * b) mod N = 1"
  shows "coprime x N"
proof (rule coprimeI)
  fix c assume "c dvd x" "c dvd N"
  then have "c dvd (x * b) mod N" by (simp add: dvd_mod)
  with assms show "is_unit c" by simp
qed

lemma lucas_test:
  fixes a :: int and n :: nat
  assumes n: "0 < n"
    and one: "a ^ n mod (int n + 1) = 1"
    and others: "\<And>q. is_prime q \<Longrightarrow> q dvd int n \<Longrightarrow> a ^ (n div nat q) mod (int n + 1) \<noteq> 1"
  shows "is_prime (int n + 1)"
proof -
  define N where "N = int n + 1"
  have N: "1 < N" using n by (simp add: N_def)
  note one = one[folded N_def] and others = others[folded N_def]
  define d where "d = (LEAST d. 0 < d \<and> a ^ d mod N = 1)"
  have "0 < d \<and> a ^ d mod N = 1"
    unfolding d_def by (rule LeastI[of _ n]) (use n one in simp)
  then have d0: "0 < d" and d1: "a ^ d mod N = 1" by simp_all
  have dmin: "d \<le> e" if "0 < e" "a ^ e mod N = 1" for e
    unfolding d_def by (rule Least_le) (use that in simp)
  have pw: "a ^ (d * k) mod N = 1" for k
  proof -
    have "a ^ (d * k) mod N = ((a ^ d mod N) ^ k) mod N"
      by (simp add: power_mult power_mod)
    then show ?thesis using N by (simp add: d1)
  qed
  have ddvd: "d dvd e" if e: "a ^ e mod N = 1" for e
  proof -
    define r where "r = e mod d"
    have "e = d * (e div d) + r" by (simp add: r_def)
    then have "a ^ e mod N = (a ^ (d * (e div d)) * a ^ r) mod N"
      by (metis power_add)
    also have "\<dots> = ((a ^ (d * (e div d)) mod N) * (a ^ r mod N)) mod N"
      by (simp add: mod_mult_eq)
    also have "\<dots> = a ^ r mod N" by (simp add: pw)
    finally have "a ^ r mod N = 1" using e by simp
    moreover have "r < d" using d0 by (simp add: r_def)
    ultimately have "r = 0" using dmin[of r] by (cases "r = 0") auto
    then show ?thesis by (simp add: r_def dvd_eq_mod_eq_0)
  qed
  have dn: "d = n"
  proof (rule ccontr)
    assume neq: "d \<noteq> n"
    from ddvd[OF one] obtain m where m: "n = d * m" by (auto elim: dvdE)
    have "m \<noteq> 0" using n m by auto
    moreover have "m \<noteq> 1" using neq m by auto
    ultimately have "1 < m" by linarith
    then have "1 < int m" by simp
    from prime_factor_exists[OF this] obtain q where q: "is_prime q" "q dvd int m" by auto
    from q(1) have q1: "1 < q" by (simp add: is_prime_iff)
    then have qn: "int (nat q) = q" by simp
    with q(2) have qm: "nat q dvd m" by (metis int_dvd_int_iff)
    then obtain m' where m': "m = nat q * m'" by (auto elim: dvdE)
    have "q dvd int n" using q(2) m by (simp add: dvd_mult)
    moreover have "n div nat q = d * m'" using m m' q1 by simp
    ultimately show False using others[OF q(1)] pw[of m'] by simp
  qed
  have inv: "(a ^ j * a ^ (n - j)) mod N = 1" if "j \<le> n" for j
    using that one by (simp flip: power_add)
  have inj: "inj_on (\<lambda>j. a ^ j mod N) {0..<n}"
  proof (rule linorder_inj_onI)
    fix i j assume ij: "i < j" and "i \<in> {0..<n}" and "j \<in> {0..<n}"
    then have jn: "j < n" and "i \<le> n" by simp_all
    show "a ^ i mod N \<noteq> a ^ j mod N"
    proof
      assume eq: "a ^ i mod N = a ^ j mod N"
      have "a ^ (j + (n - i)) mod N = ((a ^ j mod N) * a ^ (n - i)) mod N"
        by (simp add: power_add mod_mult_left_eq)
      also have "\<dots> = (a ^ i * a ^ (n - i)) mod N"
        by (simp add: eq[symmetric] mod_mult_left_eq)
      also have "\<dots> = 1" using \<open>i \<le> n\<close> by (rule inv)
      finally have "d dvd j + (n - i)" by (rule ddvd)
      then have "n dvd (j - i) + n" using ij jn by (simp add: dn)
      then have "n dvd j - i" by simp
      then have "n \<le> j - i" using ij by (intro dvd_imp_le) simp_all
      with jn show False by simp
    qed
  qed auto
  let ?S = "(\<lambda>j. a ^ j mod N) ` {0..<n}"
  have sub: "?S \<subseteq> {x. coprime x N} \<inter> {1..N - 1}"
  proof
    fix x assume "x \<in> ?S"
    then obtain j where j: "j < n" "x = a ^ j mod N" by auto
    have "(x * a ^ (n - j)) mod N = 1"
      using inv[of j] j by (simp add: mod_mult_left_eq)
    then have cop: "coprime x N" by (rule mod_one_coprime)
    have "0 \<le> x" "x < N" using N j(2) by simp_all
    moreover have "x \<noteq> 0" using cop N by auto
    ultimately show "x \<in> {x. coprime x N} \<inter> {1..N - 1}" using cop by simp
  qed
  have "card ?S = n" using inj by (simp add: card_image)
  moreover have "card {1..N - 1} = n" by (simp add: N_def)
  ultimately have "?S = {1..N - 1}"
    using sub by (intro card_subset_eq) auto
  with sub have all: "\<And>x. 1 \<le> x \<Longrightarrow> x \<le> N - 1 \<Longrightarrow> coprime x N" by auto
  have "\<not> c dvd N" if c: "1 < c" "c < N" for c
  proof
    assume "c dvd N"
    moreover have "coprime c N" using all c by simp
    ultimately have "is_unit c" by (meson coprime_common_divisor dvd_refl)
    with c(1) show False by simp
  qed
  with N show ?thesis unfolding N_def[symmetric] by (simp add: is_prime_iff)
qed

lemma pow_mod_value:
  assumes "pow_mod a b m = Some (Inr r)" "0 < b" "0 < m" "m \<le> INT_MAX" "0 \<le> a" "a \<le> INT_MAX"
  shows "a ^ nat b mod m = r"
  using pow_mod_correct[of b m a] assms by simp

lemma lucas_test_int:
  fixes a N :: int
  assumes N: "1 < N"
    and one: "a ^ nat (N - 1) mod N = 1"
    and others: "\<And>q. is_prime q \<Longrightarrow> q dvd N - 1 \<Longrightarrow> a ^ nat ((N - 1) div q) mod N \<noteq> 1"
  shows "is_prime N"
proof -
  define n where "n = nat (N - 1)"
  have n: "0 < n" "int n + 1 = N" "int n = N - 1" using N by (simp_all add: n_def)
  have "is_prime (int n + 1)"
  proof (rule lucas_test[of n a])
    show "0 < n" by (rule n)
    show "a ^ n mod (int n + 1) = 1" using one N by (simp add: n n_def)
    fix q assume q: "is_prime q" "q dvd int n"
    then have "a ^ nat ((N - 1) div q) mod N \<noteq> 1" by (intro others) (simp_all add: n)
    moreover have "nat ((N - 1) div q) = n div nat q"
      using N by (simp add: n_def nat_div_distrib)
    ultimately show "a ^ (n div nat q) mod (int n + 1) \<noteq> 1" by (simp add: n)
  qed
  then show ?thesis by (simp add: n)
qed

lemma small_primes:
  "is_prime 2" "is_prime 3" "is_prime 7" "is_prime 11" "is_prime 31" "is_prime 151" "is_prime 331"
  by code_simp+

lemma lucas_other:
  assumes "pow_mod a e N = Some (Inr r)" "r \<noteq> 1" "(N - 1) div q = e"
    "0 < e" "0 < N" "N \<le> INT_MAX" "0 \<le> a" "a \<le> INT_MAX"
  shows "a ^ nat ((N - 1) div q) mod N \<noteq> 1"
  using pow_mod_value[OF assms(1) assms(4-8)] assms(2,3) by simp

lemma int_max_is_prime: "is_prime INT_MAX"
proof (rule lucas_test_int[where a = 7])
  show "(1::int) < INT_MAX" by simp
  have "pow_mod 7 (INT_MAX - 1) INT_MAX = Some (Inr 1)" by code_simp
  then show "(7::int) ^ nat (INT_MAX - 1) mod INT_MAX = 1" by (rule pow_mod_value) simp_all
next
  fix q :: int assume q: "is_prime q" "q dvd INT_MAX - 1"
  have "INT_MAX - 1 = 2 * (3 * (3 * (7 * (11 * (31 * (151 * (331::int)))))))" by simp
  with q(2) have "q dvd 2 * (3 * (3 * (7 * (11 * (31 * (151 * (331::int)))))))" by (simp only:)
  then have "q dvd 2 \<or> q dvd 3 \<or> q dvd 7 \<or> q dvd 11 \<or> q dvd 31 \<or> q dvd 151 \<or> q dvd 331"
    using is_prime_dvd_mult[OF q(1)] by blast
  then have cases: "q = 2 \<or> q = 3 \<or> q = 7 \<or> q = 11 \<or> q = 31 \<or> q = 151 \<or> q = 331"
    using is_prime_dvd_prime[OF q(1)] small_primes by blast
  have e2: "pow_mod 7 1073741823 INT_MAX = Some (Inr 2147483646)" by code_simp
  have c2: "(7::int) ^ nat ((INT_MAX - 1) div 2) mod INT_MAX \<noteq> 1"
    by (rule lucas_other[OF e2]) simp_all
  have e3: "pow_mod 7 715827882 INT_MAX = Some (Inr 1513477735)" by code_simp
  have c3: "(7::int) ^ nat ((INT_MAX - 1) div 3) mod INT_MAX \<noteq> 1"
    by (rule lucas_other[OF e3]) simp_all
  have e7: "pow_mod 7 306783378 INT_MAX = Some (Inr 1205362885)" by code_simp
  have c7: "(7::int) ^ nat ((INT_MAX - 1) div 7) mod INT_MAX \<noteq> 1"
    by (rule lucas_other[OF e7]) simp_all
  have e11: "pow_mod 7 195225786 INT_MAX = Some (Inr 1969212174)" by code_simp
  have c11: "(7::int) ^ nat ((INT_MAX - 1) div 11) mod INT_MAX \<noteq> 1"
    by (rule lucas_other[OF e11]) simp_all
  have e31: "pow_mod 7 69273666 INT_MAX = Some (Inr 512)" by code_simp
  have c31: "(7::int) ^ nat ((INT_MAX - 1) div 31) mod INT_MAX \<noteq> 1"
    by (rule lucas_other[OF e31]) simp_all
  have e151: "pow_mod 7 14221746 INT_MAX = Some (Inr 535044134)" by code_simp
  have c151: "(7::int) ^ nat ((INT_MAX - 1) div 151) mod INT_MAX \<noteq> 1"
    by (rule lucas_other[OF e151]) simp_all
  have e331: "pow_mod 7 6487866 INT_MAX = Some (Inr 1761855083)" by code_simp
  have c331: "(7::int) ^ nat ((INT_MAX - 1) div 331) mod INT_MAX \<noteq> 1"
    by (rule lucas_other[OF e331]) simp_all
  from cases show "(7::int) ^ nat ((INT_MAX - 1) div q) mod INT_MAX \<noteq> 1"
    using c2 c3 c7 c11 c31 c151 c331 by blast
qed

lemma next_prime_exists:
  assumes "is_prime P" "P \<le> INT_MAX"
  shows "2 \<le> n \<Longrightarrow> n < P \<Longrightarrow>
         \<exists>p. next_prime n = Inr p \<and> n < p \<and> p \<le> P \<and> is_prime p \<and> (\<forall>q. n < q \<and> q < p \<longrightarrow> \<not> is_prime q)"
proof (induction "nat (P - n)" arbitrary: n rule: less_induct)
  case less
  show ?case
  proof (cases "is_prime (n + 1)")
    case True
    have "next_prime n = Inr (n + 1)"
      using True less.prems assms(2) by (intro next_prime_least) auto
    with True less.prems show ?thesis by (intro exI[of _ "n + 1"]) auto
  next
    case False
    with assms(1) less.prems have lt: "n + 1 < P" by (cases "n + 1 = P") auto
    then have "nat (P - (n + 1)) < nat (P - n)" by simp
    from less.hyps[OF this _ lt] less.prems(1)
    obtain p where p: "next_prime (n + 1) = Inr p" "n + 1 < p" "p \<le> P" "is_prime p"
      "\<forall>q. n + 1 < q \<and> q < p \<longrightarrow> \<not> is_prime q" by auto
    have none: "\<forall>q. n < q \<and> q < p \<longrightarrow> \<not> is_prime q"
    proof (intro allI impI)
      fix q assume "n < q \<and> q < p"
      with False p(5) show "\<not> is_prime q" by (cases "q = n + 1") auto
    qed
    have "next_prime n = Inr p"
      using p less.prems assms(2) none by (intro next_prime_least) simp_all
    with p none show ?thesis by (intro exI[of _ p]) auto
  qed
qed

text \<open>
  Claim C9, amended. For every \<open>int\<close> \<open>n\<close> with \<open>3 \<le> n < INT_MAX\<close>, \<open>next_prime(n)\<close>
  terminates, without overflow, and returns the smallest prime above \<open>n\<close>, which is odd;
  and for every odd \<open>int\<close> \<open>n \<ge> 3\<close>, \<open>not_prime(n)\<close> is true exactly when \<open>n\<close> is composite.
\<close>

theorem next_prime_smallest:
  "(3 \<le> n \<and> n < INT_MAX \<longrightarrow>
      (\<exists>p. next_prime n = Inr p \<and> n < p \<and> is_prime p \<and> odd p \<and>
           (\<forall>q. n < q \<and> q < p \<longrightarrow> \<not> is_prime q))) \<and>
   (3 \<le> n \<and> n \<le> INT_MAX \<and> odd n \<longrightarrow> not_prime n = Inr (\<not> is_prime n))"
proof (intro conjI impI)
  assume n: "3 \<le> n \<and> n < INT_MAX"
  then have "2 \<le> n" "n < INT_MAX" by simp_all
  from next_prime_exists[OF int_max_is_prime _ this]
  obtain p where p: "next_prime n = Inr p" "n < p" "is_prime p"
    "\<forall>q. n < q \<and> q < p \<longrightarrow> \<not> is_prime q" by auto
  from p(2,3) n have "odd p" by (intro is_prime_odd) simp_all
  with p show "\<exists>p. next_prime n = Inr p \<and> n < p \<and> is_prime p \<and> odd p \<and>
           (\<forall>q. n < q \<and> q < p \<longrightarrow> \<not> is_prime q)" by blast
next
  assume "3 \<le> n \<and> n \<le> INT_MAX \<and> odd n"
  then show "not_prime n = Inr (\<not> is_prime n)" by (intro not_prime_odd) simp_all
qed

theorem next_prime_smallest_witness:
  "(3::int) \<le> 113 \<and> (113::int) < INT_MAX \<and> odd (113::int) \<and>
   next_prime 113 = Inr 127 \<and> is_prime 127 \<and> odd (127::int) \<and>
   not_prime 113 = Inr False \<and> is_prime 113"
proof -
  have v: "next_prime 113 = Inr 127" "not_prime 113 = Inr False" by code_simp+
  from next_prime_smallest[of 113] v show ?thesis by simp
qed

text \<open>
  At \<open>n = INT_MAX\<close> the claim as stated fails: \<open>++n\<close> overflows, and no \<open>int\<close> is a prime
  above \<open>n\<close>.
\<close>

theorem next_prime_int_max_overflows: "next_prime INT_MAX = Inl Overflow"
  by (subst next_prime.simps) (simp add: int_add_def in_int_def)

section \<open>Properties of the digit extractor\<close>

subsection \<open>Runs that do not divide by zero\<close>

lemma ok_Inr [simp]: "ok P (Inr x) \<longleftrightarrow> P x"
  by (simp add: ok_def)

lemma ok_Inl [simp]: "ok P (Inl e) \<longleftrightarrow> e = Overflow"
  by (simp add: ok_def)

















subsection \<open>The pass over \<open>k\<close> for a prime \<open>a \<le> 2N\<close>\<close>











subsection \<open>A pass with \<open>vmax = 0\<close> for a prime above \<open>2N\<close>\<close>

text \<open>
  Were the loop to make a pass for a prime above \<open>2N\<close>, with \<open>vmax = 0\<close>, then \<open>v\<close> would
  stay 0, \<open>inv_mod\<close> would not be called and the pass would yield \<open>0 / 1\<close>.
\<close>

lemma k_body_above:
  assumes "1 \<le> k" "2 * k - 1 < a" "a \<le> INT_MAX" "0 \<le> num" "num \<le> 1" "0 \<le> den" "den \<le> 1"
  shows "k_body a 1 vmax k (num, den, 0, k, 2 * k - 1, 0) = Inr (0, 0, 0, k + 1, 2 * (k + 1) - 1, 0)"
proof -
  from assms have ka: "k < a" by simp
  have "in_long (num * k)" "in_long (den * (2 * k - 1))"
    using assms by (auto simp: in_long_def intro: order_trans[OF mult_right_mono[of num 1]] order_trans[OF mult_right_mono[of den 1]]
      order_trans[OF _ mult_nonneg_nonneg])
  moreover have "x smod 1 = 0" for x :: int by (simp add: signed_modulo_int_def)
  ultimately show ?thesis
    using assms ka by (simp add: k_body_def int_add_def int_mul_def int_sub_def mul_mod_def in_int_def)
qed

lemma k_loop_above:
  assumes "2 * N < a" "a \<le> INT_MAX"
  shows "1 \<le> k \<Longrightarrow> 0 \<le> num \<Longrightarrow> num \<le> 1 \<Longrightarrow> 0 \<le> den \<Longrightarrow> den \<le> 1 \<Longrightarrow>
         \<exists>num' den' k'. k_loop a 1 vmax N k (num, den, 0, k, 2 * k - 1, 0) = Inr (num', den', 0, k', 2 * k' - 1, 0)"
proof (induction "nat (N + 1 - k)" arbitrary: k num den rule: less_induct)
  case less
  show ?case
  proof (cases "k \<le> N")
    case False
    then show ?thesis by (subst k_loop.simps) simp
  next
    case True
    with assms have lt: "2 * k - 1 < a" by simp
    have body: "k_body a 1 vmax k (num, den, 0, k, 2 * k - 1, 0) = Inr (0, 0, 0, k + 1, 2 * (k + 1) - 1, 0)"
      using less.prems lt assms(2) by (intro k_body_above)
    have add: "int_add k 1 = Inr (k + 1)"
      using True assms less.prems(1) by (simp add: int_add_def in_int_def)
    have "nat (N + 1 - (k + 1)) < nat (N + 1 - k)" using True by simp
    from less.hyps[OF this, of 0 0] less.prems(1)
    obtain num' den' k' where
      "k_loop a 1 vmax N (k + 1) (0, 0, 0, k + 1, 2 * (k + 1) - 1, 0) = Inr (num', den', 0, k', 2 * k' - 1, 0)"
      by auto
    with True show ?thesis by (subst k_loop.simps) (simp add: body add)
  qed
qed

lemma at_term_above:
  assumes "3 \<le> a" "a \<le> INT_MAX" "2 * N < a" "vmax \<le> 0" "1 \<le> n" "n \<le> INT_MAX"
  shows "at_term n N a vmax = Some (Inr (0, 1))"
proof -
  have av1: "av_loop a vmax 0 1 = Inr 1" using assms(4) by (subst av_loop.simps) simp
  from k_loop_above[OF assms(3,2), of 1 1 1 vmax]
  obtain num' den' k' where
    kl: "k_loop a 1 vmax N 1 (1, 1, 0, 1, 1, 0) = Inr (num', den', 0, k', 2 * k' - 1, 0)"
    by auto
  have sub: "int_sub n 1 = Inr (n - 1)" using assms(5,6) by (simp add: int_sub_def in_int_def)
  have pm: "pow_mod 10 (n - 1) 1 = Some (Inr (if n - 1 = 0 then 1 else 10 ^ nat (n - 1) mod 1))"
    using assms(5) by (intro pow_mod_correct) simp_all
  show ?thesis
    by (simp add: at_term_def av1 kl sub pm mul_mod_def in_long_def)
qed

subsection \<open>The loop over the primes\<close>


lemma floor_log_nonneg: "0 \<le> floor_log m a"
  by (induction m a rule: floor_log.induct) (subst floor_log.simps, simp)




subsection \<open>No undefined behaviour at all, for bounds in the range of the program\<close>















lemma floor_log_power_gt: "1 < a \<Longrightarrow> m < a ^ nat (floor_log m a + 1)"
proof (induction m a rule: floor_log.induct)
  case (1 m a)
  show ?case
  proof (cases "a \<le> m")
    case False
    with "1.prems" show ?thesis by (subst floor_log.simps) simp
  next
    case True
    from "1.IH" True "1.prems" have IH: "m div a < a ^ nat (floor_log (m div a) a + 1)" by simp
    have e: "nat (2 + floor_log (m div a) a) = Suc (nat (floor_log (m div a) a + 1))"
      using floor_log_nonneg[of "m div a" a] by simp
    have d: "a * (m div a) + m mod a = m" by simp
    have "m mod a < a" using "1.prems" by simp
    with d have "m < a * (m div a) + a" by linarith
    then have "m < a * (m div a + 1)" by (simp add: distrib_left)
    also have "\<dots> \<le> a * a ^ nat (floor_log (m div a) a + 1)"
      using IH "1.prems" by (intro mult_left_mono) simp_all
    also have "\<dots> = a ^ nat (floor_log m a + 1)"
      using True "1.prems" by (subst (2) floor_log.simps) (simp add: e)
    finally show ?thesis .
  qed
qed









subsection \<open>The first digits of \<open>\<pi>\<close>\<close>

text \<open>
  The rounding agrees with IEEE 754 on known values: \<open>1.0 / 3\<close> is
  \<open>0x1.5555555555555p-2\<close>, \<open>1.0 / 10\<close> is \<open>0x1.999999999999ap-4\<close>, \<open>0.1 + 0.2\<close> is
  \<open>0x1.3333333333334p-2\<close>, and \<open>fmod(2.0 / 3 + 2.0 / 3, 1.0)\<close> is \<open>0x1.5555555555554p-2\<close>.
\<close>

lemma d_div_known_values:
  "d_div 1 3 = (6004799503160661, 54) \<and> d_div 1 10 = (7205759403792794, 56) \<and>
   d_add (d_div 1 10) (d_div 2 10) = (5404319552844596, 54) \<and>
   d_fmod1 (d_add (d_div 2 3) (d_div 2 3)) = (1501199875790165, 52)"
  by code_simp

lemma at_index_1: "nine_digits_of_Pi_at 1 = Some (Inr 141592653)"
  by code_simp

lemma at_index_10: "nine_digits_of_Pi_at 10 = Some (Inr 589793238)"
  by code_simp

text \<open>
  Claim C2: \<open>at(1)\<close> returns 141592653 and \<open>at(10)\<close> returns 589793238, the decimal
  digits 1 to 9 and 10 to 18 of \<open>\<pi>\<close>. Both runs are evaluated in full: for \<open>n = 1\<close> the
  bound is \<open>N = 69\<close> and the loop makes 32 passes, for the primes from 3 to 137; for
  \<open>n = 10\<close> it is \<open>N = 99\<close>, with 44 passes, for the primes from 3 to 197.
\<close>

theorem at_known_values:
  "nine_digits_of_Pi_at 1 = Some (Inr 141592653) \<and>
   nine_digits_of_Pi_at 10 = Some (Inr 589793238)"
  using at_index_1 at_index_10 by simp

subsection \<open>Division by zero\<close>




section \<open>Properties of the block assembler\<close>

declare calc_pi_loop.simps [simp del] calc_pi_sync_loop.simps [simp del] digits_of.simps [simp del]

lemma calc_pi_loop_done: "\<not> i < digits \<Longrightarrow> calc_pi_loop at progress digits i r = r"
  by (subst calc_pi_loop.simps) simp

lemma calc_pi_loop_continue:
  assumes "i < digits" and "progress (cb_state r) (i + min (digits - i) 9) = (True, st)"
  shows "calc_pi_loop at progress digits i r =
         calc_pi_loop at progress digits (i + 9)
           \<lparr>result = result r @ take (min (digits - i) 9) (to_string (at (i + 1))),
            calls = calls r @ [i + min (digits - i) 9], blocks = blocks r @ [i + 1],
            cb_state = st, answers = answers r @ [True]\<rparr>"
  using assms by (subst calc_pi_loop.simps) (simp add: Let_def)

lemma calc_pi_loop_cancel:
  assumes "i < digits" and "progress (cb_state r) (i + min (digits - i) 9) = (False, st)"
  shows "calc_pi_loop at progress digits i r =
           \<lparr>result = [],
            calls = calls r @ [i + min (digits - i) 9], blocks = blocks r @ [i + 1],
            cb_state = st, answers = answers r @ [False]\<rparr>"
  using assms by (subst calc_pi_loop.simps) (simp add: Let_def)

lemma calc_pi_sync_loop_done: "\<not> i < digits \<Longrightarrow> calc_pi_sync_loop at progress digits i r = r"
  by (subst calc_pi_sync_loop.simps) simp

lemma calc_pi_sync_loop_step:
  assumes "i < digits"
  shows "calc_pi_sync_loop at progress digits i r =
         calc_pi_sync_loop at progress digits (i + 9)
           \<lparr>result = result r @ take (min (digits - i) 9) (to_string (at (i + 1))),
            calls = calls r @ [i + min (digits - i) 9], blocks = blocks r @ [i + 1],
            cb_state = progress (cb_state r) (i + min (digits - i) 9)\<rparr>"
  using assms by (subst calc_pi_sync_loop.simps) (simp add: Let_def)

text \<open>What a run of the loop leaves behind, whatever the callback answers.\<close>

lemma calc_pi_loop_cases [consumes 1, case_names continue cancel]:
  assumes "i < digits"
  obtains st where "progress (cb_state r) (i + min (digits - i) 9) = (True, st)"
  | st where "progress (cb_state r) (i + min (digits - i) 9) = (False, st)"
  by (cases "progress (cb_state r) (i + min (digits - i) 9)") (metis (full_types))



lemma calc_pi_loop_completed:
  "False \<notin> set (answers r) \<Longrightarrow> result r \<noteq> [] \<Longrightarrow>
   False \<notin> set (answers (calc_pi_loop at progress digits i r)) \<Longrightarrow>
   result (calc_pi_loop at progress digits i r) \<noteq> []"
proof (induction "digits - i" arbitrary: i r rule: less_induct)
  case less
  show ?case
  proof (cases "i < digits")
    case False
    with less.prems show ?thesis by (simp add: calc_pi_loop_done)
  next
    case True
    then show ?thesis
    proof (cases rule: calc_pi_loop_cases[where r = r and progress = progress])
      case (continue st)
      note eq = calc_pi_loop_continue[where progress = progress and at = at, OF True continue]
      show ?thesis
        unfolding eq
        by (rule less.hyps) (use True less.prems in \<open>simp_all add: eq\<close>)
    next
      case (cancel st)
      show ?thesis
        using less.prems(3)
        unfolding calc_pi_loop_cancel[where progress = progress, OF True cancel]
        by simp
    qed
  qed
qed

text \<open>The values passed to the callback.\<close>

lemma calc_pi_loop_increasing:
  "sorted_wrt (<) (calls r) \<Longrightarrow> \<forall>x\<in>set (calls r). x \<le> i \<Longrightarrow>
   sorted_wrt (<) (calls (calc_pi_loop at progress digits i r))"
proof (induction "digits - i" arbitrary: i r rule: less_induct)
  case less
  show ?case
  proof (cases "i < digits")
    case False
    with less.prems show ?thesis by (simp add: calc_pi_loop_done)
  next
    case True
    then show ?thesis
    proof (cases rule: calc_pi_loop_cases[where r = r and progress = progress])
      case (continue st)
      show ?thesis
        unfolding calc_pi_loop_continue[where progress = progress, OF True continue]
        by (rule less.hyps) (use True less.prems in \<open>auto simp: sorted_wrt_append\<close>)
    next
      case (cancel st)
      show ?thesis
        unfolding calc_pi_loop_cancel[where progress = progress, OF True cancel]
        using True less.prems by (auto simp: sorted_wrt_append)
    qed
  qed
qed

lemma calc_pi_loop_last:
  "i < digits \<Longrightarrow> False \<notin> set (answers (calc_pi_loop at progress digits i r)) \<Longrightarrow>
   calls (calc_pi_loop at progress digits i r) \<noteq> [] \<and>
   last (calls (calc_pi_loop at progress digits i r)) = digits"
proof (induction "digits - i" arbitrary: i r rule: less_induct)
  case less
  from less.prems(1) show ?case
  proof (cases rule: calc_pi_loop_cases[where r = r and progress = progress])
    case (continue st)
    note eq = calc_pi_loop_continue[where progress = progress and at = at, OF less.prems(1) continue]
    show ?thesis
    proof (cases "i + 9 < digits")
      case True
      show ?thesis
        unfolding eq
        by (rule less.hyps) (use True less.prems in \<open>simp_all add: eq\<close>)
    next
      case False
      then show ?thesis
        unfolding eq using less.prems(1) by (simp add: calc_pi_loop_done)
    qed
  next
    case (cancel st)
    show ?thesis
      using less.prems(2)
      unfolding calc_pi_loop_cancel[where progress = progress, OF less.prems(1) cancel]
      by simp
  qed
qed

text \<open>The two variants side by side.\<close>

lemma calc_pi_loop_sync:
  "result r = result q \<Longrightarrow> calls r = calls q \<Longrightarrow> blocks r = blocks q \<Longrightarrow> cb_state r = cb_state q \<Longrightarrow>
   result (calc_pi_loop at (\<lambda>s n. (True, f s n)) digits i r) = result (calc_pi_sync_loop at f digits i q) \<and>
   calls (calc_pi_loop at (\<lambda>s n. (True, f s n)) digits i r) = calls (calc_pi_sync_loop at f digits i q) \<and>
   blocks (calc_pi_loop at (\<lambda>s n. (True, f s n)) digits i r) = blocks (calc_pi_sync_loop at f digits i q) \<and>
   cb_state (calc_pi_loop at (\<lambda>s n. (True, f s n)) digits i r) = cb_state (calc_pi_sync_loop at f digits i q)"
proof (induction "digits - i" arbitrary: i r q rule: less_induct)
  case less
  show ?case
  proof (cases "i < digits")
    case False
    with less.prems show ?thesis by (simp add: calc_pi_loop_done calc_pi_sync_loop_done)
  next
    case True
    have c: "(\<lambda>s n. (True, f s n)) (cb_state r) (i + min (digits - i) 9)
             = (True, f (cb_state r) (i + min (digits - i) 9))"
      by simp
    show ?thesis
      unfolding calc_pi_loop_continue[where progress = "\<lambda>s n. (True, f s n)", OF True c]
        calc_pi_sync_loop_step[OF True]
      by (rule less.hyps) (use True less.prems in simp_all)
  qed
qed

lemma calc_pi_loop_always [consumes 2]:
  assumes "\<And>s n. fst (progress s n)" and "i < digits"
  obtains st where "progress (cb_state r) (i + min (digits - i) 9) = (True, st)"
  using assms(1)[of "cb_state r" "i + min (digits - i) 9"]
  by (cases "progress (cb_state r) (i + min (digits - i) 9)") auto

lemma is_digit_digit_char: "m < 10 \<Longrightarrow> is_digit (digit_char m)"
  by (simp add: is_digit_def digit_char_def)

lemma digits_of_all_digits: "\<forall>c\<in>set (digits_of n). is_digit c"
proof (induction n rule: digits_of.induct)
  case (1 n)
  then show ?case
    by (subst digits_of.simps) (auto simp: is_digit_digit_char)
qed

lemma length_digits_of_le: "n < 10 ^ Suc k \<Longrightarrow> length (digits_of n) \<le> Suc k"
proof (induction k arbitrary: n)
  case 0
  then show ?case by (subst digits_of.simps) simp
next
  case (Suc k)
  show ?case
  proof (cases "n < 10")
    case True
    then show ?thesis by (subst digits_of.simps) simp
  next
    case False
    from Suc.prems have "n div 10 < 10 ^ Suc k" by (simp add: less_mult_imp_div_less mult.commute)
    from Suc.IH[OF this] False show ?thesis by (subst digits_of.simps) simp
  qed
qed

lemma length_digits_of_eq: "10 ^ k \<le> n \<Longrightarrow> n < 10 ^ Suc k \<Longrightarrow> length (digits_of n) = Suc k"
proof (induction k arbitrary: n)
  case 0
  then show ?case by (subst digits_of.simps) simp
next
  case (Suc k)
  have p: "(1::nat) \<le> 10 ^ k" by simp
  from Suc.prems(1) have q: "10 * 10 ^ k \<le> n" by simp
  from p q have ge: "\<not> n < 10" by linarith
  from Suc.prems have "n div 10 < 10 ^ Suc k" by (simp add: less_mult_imp_div_less mult.commute)
  moreover from Suc.prems have "10 ^ k \<le> n div 10"
    by (simp add: less_eq_div_iff_mult_less_eq mult.commute)
  ultimately have "length (digits_of (n div 10)) = Suc k" by (rule Suc.IH[rotated])
  with ge show ?case by (subst digits_of.simps) simp
qed

lemma calc_pi_loop_length_le:
  assumes always: "\<And>s n. fst (progress s n)"
  shows "length (result (calc_pi_loop at progress digits i r)) \<le> length (result r) + (digits - i)"
proof (induction "digits - i" arbitrary: i r rule: less_induct)
  case less
  show ?case
  proof (cases "i < digits")
    case False
    then show ?thesis by (simp add: calc_pi_loop_done)
  next
    case True
    from always True obtain st where
      c: "progress (cb_state r) (i + min (digits - i) 9) = (True, st)"
      by (rule calc_pi_loop_always)
    note eq = calc_pi_loop_continue[where progress = progress and at = at, OF True c]
    have "length (result (calc_pi_loop at progress digits i r))
          \<le> length (result r @ take (min (digits - i) 9) (to_string (at (i + 1)))) + (digits - (i + 9))"
      unfolding eq by (rule order_trans[OF less.hyps]) (use True in simp_all)
    also have "\<dots> \<le> length (result r) + (digits - i)"
      using True by auto
    finally show ?thesis .
  qed
qed

lemma calc_pi_loop_length_less:
  assumes always: "\<And>s n. fst (progress s n)"
  shows "j < digits \<Longrightarrow> j = i + 9 * m \<Longrightarrow>
         length (to_string (at (j + 1))) < min (digits - j) 9 \<Longrightarrow>
         length (result (calc_pi_loop at progress digits i r)) < length (result r) + (digits - i)"
proof (induction m arbitrary: i r)
  case 0
  then have True: "i < digits" and short: "length (to_string (at (i + 1))) < min (digits - i) 9"
    by simp_all
  from always True obtain st where
    c: "progress (cb_state r) (i + min (digits - i) 9) = (True, st)"
    by (rule calc_pi_loop_always)
  note eq = calc_pi_loop_continue[where progress = progress and at = at, OF True c]
  have "length (result (calc_pi_loop at progress digits i r))
        \<le> length (result r @ take (min (digits - i) 9) (to_string (at (i + 1)))) + (digits - (i + 9))"
    unfolding eq by (rule order_trans[OF calc_pi_loop_length_le[OF always]]) simp
  also have "\<dots> < length (result r) + (digits - i)"
    using True short by auto
  finally show ?case .
next
  case (Suc m)
  then have True: "i < digits" by simp
  from always True obtain st where
    c: "progress (cb_state r) (i + min (digits - i) 9) = (True, st)"
    by (rule calc_pi_loop_always)
  note eq = calc_pi_loop_continue[where progress = progress and at = at, OF True c]
  have "length (result (calc_pi_loop at progress digits i r))
        < length (result r @ take (min (digits - i) 9) (to_string (at (i + 1)))) + (digits - (i + 9))"
    unfolding eq
    by (rule less_le_trans[OF Suc.IH[where i = "i + 9"]]) (use Suc.prems in simp_all)
  also have "\<dots> \<le> length (result r) + (digits - i)"
    using True by auto
  finally show ?case .
qed

lemma calc_pi_loop_result:
  assumes always: "\<And>s n. fst (progress s n)"
    and nine: "\<And>j. j < digits \<Longrightarrow> 100000000 \<le> at (j + 1) \<and> at (j + 1) < 1000000000"
  shows "\<exists>ds. result (calc_pi_loop at progress digits i r) = result r @ ds \<and>
           length ds = digits - i \<and> (\<forall>c\<in>set ds. is_digit c)"
proof (induction "digits - i" arbitrary: i r rule: less_induct)
  case less
  show ?case
  proof (cases "i < digits")
    case False
    then show ?thesis by (simp add: calc_pi_loop_done)
  next
    case True
    from always True obtain st where
      c: "progress (cb_state r) (i + min (digits - i) 9) = (True, st)"
      by (rule calc_pi_loop_always)
    note eq = calc_pi_loop_continue[where progress = progress and at = at, OF True c]
    let ?v = "at (i + 1)"
    let ?b = "take (min (digits - i) 9) (to_string ?v)"
    from nine[OF True] have v: "100000000 \<le> ?v" "?v < 1000000000" by simp_all
    then have "10 ^ 8 \<le> nat ?v" "nat ?v < 10 ^ Suc 8" by simp_all
    then have "length (digits_of (nat ?v)) = Suc 8" by (rule length_digits_of_eq)
    with v have len: "length (to_string ?v) = 9" by (simp add: to_string_def)
    from v have dig: "\<forall>c\<in>set (to_string ?v). is_digit c"
      by (simp add: to_string_def digits_of_all_digits)
    have "digits - (i + 9) < digits - i" using True by simp
    from less.hyps[OF this, of "\<lparr>result = result r @ ?b,
            calls = calls r @ [i + min (digits - i) 9], blocks = blocks r @ [i + 1],
            cb_state = st, answers = answers r @ [True]\<rparr>"]
    obtain ds where ds: "result (calc_pi_loop at progress digits i r) = (result r @ ?b) @ ds"
      "length ds = digits - (i + 9)" "\<forall>c\<in>set ds. is_digit c"
      unfolding eq by auto
    have "length (?b @ ds) = digits - i" using ds(2) len True by auto
    moreover have "\<forall>c\<in>set (?b @ ds). is_digit c"
      using ds(3) dig by (auto dest: in_set_takeD)
    ultimately show ?thesis using ds(1) by (metis append.assoc)
  qed
qed

lemma calc_pi_nine_digit_blocks:
  assumes "\<And>s n. fst (progress s n)"
    and "\<And>j. j < d \<Longrightarrow> 100000000 \<le> at (j + 1) \<and> at (j + 1) < 1000000000"
  shows "length (result (calc_pi d at progress st)) = 2 + d \<and>
         take 2 (result (calc_pi d at progress st)) = ''3.'' \<and>
         (\<forall>c\<in>set (drop 2 (result (calc_pi d at progress st))). is_digit c)"
proof -
  let ?r0 = "\<lparr>result = ''3.'', calls = [], blocks = [], cb_state = st, answers = []\<rparr>"
  have "\<exists>ds. result (calc_pi_loop at progress d 0 ?r0) = result ?r0 @ ds \<and>
           length ds = d - 0 \<and> (\<forall>c\<in>set ds. is_digit c)"
    by (rule calc_pi_loop_result) (use assms in simp_all)
  then obtain ds where "result (calc_pi d at progress st) = ''3.'' @ ds" "length ds = d"
    "\<forall>c\<in>set ds. is_digit c"
    unfolding calc_pi_def by force
  then show ?thesis by simp
qed

text \<open>
  Claim C1 (length \<open>2 + d\<close>, prefix \<open>"3."\<close>, digits only) does not hold of the code:
  \<open>std::to_string\<close> does not pad with zeros, so a block whose value is below \<open>10^8\<close>
  (a block of \<pi> that starts with the digit 0) contributes fewer characters than
  \<open>substr(0, count)\<close> asks for. Whenever a full block \<open>9k + 1 .. 9k + 9\<close> of the request has
  such a value, the returned string is shorter than \<open>2 + d\<close>. The first such block of \<pi> is
  the one at index 307 (digits \<open>006606315\<close>), so every request of 315 digits or more is
  affected.
\<close>

theorem calc_pi_short_block:
  assumes "\<And>s n. fst (progress s n)"
    and "9 * k + 9 \<le> d"
    and "0 \<le> at (9 * k + 1)" and "at (9 * k + 1) < 100000000"
  shows "length (result (calc_pi d at progress st)) < 2 + d"
proof -
  let ?v = "at (9 * k + 1)"
  from assms(3,4) have "nat ?v < 10 ^ Suc 7" by simp
  then have "length (digits_of (nat ?v)) \<le> Suc 7" by (rule length_digits_of_le)
  with assms(3) have "length (to_string ?v) < 9" by (simp add: to_string_def)
  with assms(2) have short: "length (to_string ?v) < min (d - 9 * k) 9" by simp
  have "length (result (calc_pi d at progress st))
        < length (result \<lparr>result = ''3.'', calls = [], blocks = [], cb_state = st, answers = []\<rparr>) + (d - 0)"
    unfolding calc_pi_def
    by (rule calc_pi_loop_length_less[where j = "9 * k" and m = k, OF assms(1)])
       (use assms(2) short in simp_all)
  then show ?thesis by simp
qed

theorem calc_pi_short_block_witness:
  "length (result (calc_pi 315 (\<lambda>n. if n = 307 then 6606315 else 141592653) (\<lambda>s n. (True, s)) ())) < 2 + 315"
  by (rule calc_pi_short_block[where k = 34]) simp_all



text \<open>The recorded invocations are the invocations of the callback.\<close>

lemma replay_append:
  "replay progress st (ns @ [n]) =
   replay progress st ns @ [fst (progress (foldl (\<lambda>s n. snd (progress s n)) st ns) n)]"
  by (induction ns arbitrary: st) simp_all

lemma calc_pi_loop_replay:
  "answers r = replay progress st (calls r) \<Longrightarrow>
   cb_state r = foldl (\<lambda>s n. snd (progress s n)) st (calls r) \<Longrightarrow>
   answers (calc_pi_loop at progress digits i r) =
     replay progress st (calls (calc_pi_loop at progress digits i r)) \<and>
   cb_state (calc_pi_loop at progress digits i r) =
     foldl (\<lambda>s n. snd (progress s n)) st (calls (calc_pi_loop at progress digits i r))"
proof (induction "digits - i" arbitrary: i r rule: less_induct)
  case less
  show ?case
  proof (cases "i < digits")
    case False
    with less.prems show ?thesis by (simp add: calc_pi_loop_done)
  next
    case True
    then show ?thesis
    proof (cases rule: calc_pi_loop_cases[where r = r and progress = progress])
      case (continue st')
      show ?thesis
        unfolding calc_pi_loop_continue[where progress = progress, OF True continue]
        by (rule less.hyps)
           (use True less.prems continue in \<open>simp_all add: replay_append flip: less.prems(2)\<close>)
    next
      case (cancel st')
      show ?thesis
        unfolding calc_pi_loop_cancel[where progress = progress, OF True cancel]
        using less.prems cancel by (simp add: replay_append flip: less.prems(2))
    qed
  qed
qed

text \<open>
  Claim C7: for every \<open>d \<ge> 1\<close> and every callback, the values passed to the callback are
  strictly increasing, and if no invocation answered false (the computation ran to
  completion) the last value passed is \<open>d\<close>. The values are passed to the callback
  itself, in this order: its answers are those of \<open>progress\<close> invoked on them in turn,
  and the state it is left in is the state after these invocations.
\<close>

theorem calc_pi_progress_increasing:
  "1 \<le> d \<Longrightarrow>
   sorted_wrt (<) (calls (calc_pi d at progress st)) \<and>
   (False \<notin> set (answers (calc_pi d at progress st)) \<longrightarrow>
      calls (calc_pi d at progress st) \<noteq> [] \<and> last (calls (calc_pi d at progress st)) = d) \<and>
   answers (calc_pi d at progress st) = replay progress st (calls (calc_pi d at progress st)) \<and>
   cb_state (calc_pi d at progress st) =
     foldl (\<lambda>s n. snd (progress s n)) st (calls (calc_pi d at progress st))"
proof (intro conjI impI)
  assume d: "1 \<le> d"
  let ?r0 = "\<lparr>result = ''3.'', calls = [], blocks = [], cb_state = st, answers = []\<rparr>"
  show "sorted_wrt (<) (calls (calc_pi d at progress st))"
    unfolding calc_pi_def by (rule calc_pi_loop_increasing) simp_all
  show "answers (calc_pi d at progress st) = replay progress st (calls (calc_pi d at progress st))"
    and "cb_state (calc_pi d at progress st) =
         foldl (\<lambda>s n. snd (progress s n)) st (calls (calc_pi d at progress st))"
    using calc_pi_loop_replay[of ?r0 progress st at d 0] by (simp_all add: calc_pi_def)
  assume "False \<notin> set (answers (calc_pi d at progress st))"
  with d show "calls (calc_pi d at progress st) \<noteq> []"
    and "last (calls (calc_pi d at progress st)) = d"
    using calc_pi_loop_last[of 0 d at progress ?r0] by (simp_all add: calc_pi_def)
qed

text \<open>
  The witness counts the invocations in the state of the callback: after a run for 20
  digits the callback has been invoked with 9, 18 and 20, and has added them up.
\<close>

theorem calc_pi_progress_increasing_witness:
  "(1::nat) \<le> 20 \<and>
   sorted_wrt (<) (calls (calc_pi 20 (\<lambda>n. 141592653) (\<lambda>s n. (True, s + n)) 0)) \<and>
   False \<notin> set (answers (calc_pi 20 (\<lambda>n. 141592653) (\<lambda>s n. (True, s + n)) 0)) \<and>
   calls (calc_pi 20 (\<lambda>n. 141592653) (\<lambda>s n. (True, s + n)) 0) = [9, 18, 20] \<and>
   last (calls (calc_pi 20 (\<lambda>n. 141592653) (\<lambda>s n. (True, s + n)) 0)) = 20 \<and>
   answers (calc_pi 20 (\<lambda>n. 141592653) (\<lambda>s n. (True, s + n)) 0) =
     replay (\<lambda>s n. (True, s + n)) 0 [9, 18, 20] \<and>
   cb_state (calc_pi 20 (\<lambda>n. 141592653) (\<lambda>s n. (True, s + n)) 0) = 47"
proof -
  have a: "answers (calc_pi 20 (\<lambda>n. 141592653) (\<lambda>s n. (True, s + n)) 0) = [True, True, True]"
    and c: "calls (calc_pi 20 (\<lambda>n. 141592653) (\<lambda>s n. (True, s + n)) 0) = [9, 18, 20]"
    by (simp_all add: calc_pi_def calc_pi_loop.simps Let_def)
  from a have f: "False \<notin> set (answers (calc_pi 20 (\<lambda>n. 141592653) (\<lambda>s n. (True, s + n)) 0))"
    by simp
  from calc_pi_progress_increasing[of 20 "\<lambda>n. 141592653" "\<lambda>s n. (True, s + n)" 0] f
  have "sorted_wrt (<) (calls (calc_pi 20 (\<lambda>n. 141592653) (\<lambda>s n. (True, s + n)) 0))"
    and "last (calls (calc_pi 20 (\<lambda>n. 141592653) (\<lambda>s n. (True, s + n)) 0)) = 20"
    and "answers (calc_pi 20 (\<lambda>n. 141592653) (\<lambda>s n. (True, s + n)) 0) =
         replay (\<lambda>s n. (True, s + n)) 0 (calls (calc_pi 20 (\<lambda>n. 141592653) (\<lambda>s n. (True, s + n)) 0))"
    and "cb_state (calc_pi 20 (\<lambda>n. 141592653) (\<lambda>s n. (True, s + n)) 0) =
         foldl (\<lambda>s n. snd ((\<lambda>s n. (True, s + n)) s n)) 0
           (calls (calc_pi 20 (\<lambda>n. 141592653) (\<lambda>s n. (True, s + n)) 0))"
    by simp_all
  with a c f show ?thesis by simp
qed

text \<open>
  Claim C8: with a callback that always continues, \<open>d = 1..9\<close> gives exactly one
  invocation, with value \<open>d\<close>, and \<open>d = 10\<close> gives exactly two, with values 9 then 10.
  The callback is left in the state after exactly these invocations.
\<close>

theorem calc_pi_boundary:
  assumes "\<And>s n. fst (progress s n)"
  shows "(1 \<le> d \<and> d \<le> 9 \<longrightarrow> calls (calc_pi d at progress st) = [d]) \<and>
         calls (calc_pi 10 at progress st) = [9, 10] \<and>
         (1 \<le> d \<and> d \<le> 9 \<longrightarrow>
            answers (calc_pi d at progress st) = [True] \<and>
            cb_state (calc_pi d at progress st) = snd (progress st d)) \<and>
         answers (calc_pi 10 at progress st) = [True, True] \<and>
         cb_state (calc_pi 10 at progress st) = snd (progress (snd (progress st 9)) 10)"
proof (intro conjI impI)
  let ?r0 = "\<lparr>result = ''3.'', calls = [], blocks = [], cb_state = st, answers = []\<rparr>"
  {
    assume d: "1 \<le> d \<and> d \<le> 9"
    then have lt: "0 < d" by simp
    from assms lt obtain st' where c: "progress (cb_state ?r0) (0 + min (d - 0) 9) = (True, st')"
      by (rule calc_pi_loop_always)
    from c d have s: "snd (progress st d) = st'" by (simp add: min_def)
    show "calls (calc_pi d at progress st) = [d]"
      unfolding calc_pi_def calc_pi_loop_continue[where progress = progress and at = at, OF lt c]
      using d by (simp add: calc_pi_loop_done)
    show "answers (calc_pi d at progress st) = [True]"
      unfolding calc_pi_def calc_pi_loop_continue[where progress = progress and at = at, OF lt c]
      using d by (simp add: calc_pi_loop_done)
    show "cb_state (calc_pi d at progress st) = snd (progress st d)"
      unfolding calc_pi_def calc_pi_loop_continue[where progress = progress and at = at, OF lt c] s
      using d by (simp add: calc_pi_loop_done)
  }
  have lt: "(0::nat) < 10" by simp
  from assms lt obtain st1 where c1: "progress (cb_state ?r0) (0 + min (10 - 0) 9) = (True, st1)"
    by (rule calc_pi_loop_always)
  let ?r1 = "\<lparr>result = result ?r0 @ take (min (10 - 0) 9) (to_string (at (0 + 1))),
            calls = calls ?r0 @ [0 + min (10 - 0) 9], blocks = blocks ?r0 @ [0 + 1],
            cb_state = st1, answers = answers ?r0 @ [True]\<rparr>"
  have lt2: "(0 + 9::nat) < 10" by simp
  from assms lt2 obtain st2 where
    c2: "progress (cb_state ?r1) (0 + 9 + min (10 - (0 + 9)) 9) = (True, st2)"
    by (rule calc_pi_loop_always)
  from c1 have s1: "snd (progress st 9) = st1" by simp
  from c2 have s2: "snd (progress st1 10) = st2" by simp
  show "calls (calc_pi 10 at progress st) = [9, 10]"
    unfolding calc_pi_def calc_pi_loop_continue[where progress = progress and at = at, OF lt c1]
      calc_pi_loop_continue[where progress = progress and at = at, OF lt2 c2]
    by (simp add: calc_pi_loop_done)
  show "answers (calc_pi 10 at progress st) = [True, True]"
    unfolding calc_pi_def calc_pi_loop_continue[where progress = progress and at = at, OF lt c1]
      calc_pi_loop_continue[where progress = progress and at = at, OF lt2 c2]
    by (simp add: calc_pi_loop_done)
  show "cb_state (calc_pi 10 at progress st) = snd (progress (snd (progress st 9)) 10)"
    unfolding calc_pi_def calc_pi_loop_continue[where progress = progress and at = at, OF lt c1]
      calc_pi_loop_continue[where progress = progress and at = at, OF lt2 c2] s1 s2
    by (simp add: calc_pi_loop_done)
qed

text \<open>
  The witness counts the invocations in the state of the callback: one invocation, with
  4, for \<open>d = 4\<close>; two, with 9 and 10, for \<open>d = 10\<close>.
\<close>

theorem calc_pi_boundary_witness:
  "fst ((\<lambda>s n. (True, s @ [n])) [] (0::nat)) \<and> (1::nat) \<le> 4 \<and> (4::nat) \<le> 9 \<and>
   calls (calc_pi 4 (\<lambda>n. 141592653) (\<lambda>s n. (True, s @ [n])) []) = [4] \<and>
   calls (calc_pi 10 (\<lambda>n. 141592653) (\<lambda>s n. (True, s @ [n])) []) = [9, 10] \<and>
   answers (calc_pi 4 (\<lambda>n. 141592653) (\<lambda>s n. (True, s @ [n])) []) = [True] \<and>
   cb_state (calc_pi 4 (\<lambda>n. 141592653) (\<lambda>s n. (True, s @ [n])) []) = [4] \<and>
   cb_state (calc_pi 10 (\<lambda>n. 141592653) (\<lambda>s n. (True, s @ [n])) []) = [9, 10]"
  using calc_pi_boundary[of "\<lambda>s n. (True, s @ [n])" 4 "\<lambda>n. 141592653" "[]"] by simp

text \<open>
  Claim C10: for every digit count, the \<open>ASYNC\<close> variant run with a callback that always
  answers true and the other variant run with the same callback (its answer dropped)
  return the same string, pass the same values to the callback, extract the same blocks
  and leave the callback in the same state.
\<close>

theorem calc_pi_variants_agree:
  "result (calc_pi d at (\<lambda>s n. (True, progress s n)) st) = result (calc_pi_sync d at progress st) \<and>
   calls (calc_pi d at (\<lambda>s n. (True, progress s n)) st) = calls (calc_pi_sync d at progress st) \<and>
   blocks (calc_pi d at (\<lambda>s n. (True, progress s n)) st) = blocks (calc_pi_sync d at progress st) \<and>
   cb_state (calc_pi d at (\<lambda>s n. (True, progress s n)) st) = cb_state (calc_pi_sync d at progress st)"
  unfolding calc_pi_def calc_pi_sync_def by (rule calc_pi_loop_sync) simp_all

end
